theory Spec2Isabelle
  imports Main "HOL-Library.Word" "HOL-Library.Multiset"
begin

unbundle bit_operations_syntax

section \<open>Strings\<close>

text \<open>
  A Python \<open>str\<close> is modelled as a \<open>string\<close> whose characters are the code points
  below 256. The functions of this section are the \<open>str\<close> methods and the regular
  expressions that \<open>AniXLinks.py\<close> uses.
\<close>

definition dquote :: char where
  "dquote = CHR 0x22"

definition newline :: char where
  "newline = CHR 0x0A"

text \<open>\<open>str.isspace\<close> on one character, which is also the class \<open>\s\<close> of \<open>re\<close>.\<close>

definition isspace :: "char \<Rightarrow> bool" where
  "isspace c = ((of_char c :: nat) \<in> {9, 10, 11, 12, 13, 28, 29, 30, 31, 32, 133, 160})"

definition strip :: "string \<Rightarrow> string" where
  "strip s = rev (dropWhile isspace (rev (dropWhile isspace s)))"

definition startswith :: "string \<Rightarrow> string \<Rightarrow> bool" where
  "startswith s p = (take (length p) s = p)"

definition endswith :: "string \<Rightarrow> string \<Rightarrow> bool" where
  "endswith s p = startswith (rev s) (rev p)"

text \<open>\<open>p in s\<close> for two strings.\<close>

fun contains :: "string \<Rightarrow> string \<Rightarrow> bool" where
  "contains p [] = (p = [])"
| "contains p (c # cs) = (startswith (c # cs) p \<or> contains p cs)"

definition lower_char :: "char \<Rightarrow> char" where
  "lower_char c =
     (let n = (of_char c :: nat) in
      if (65 \<le> n \<and> n \<le> 90) \<or> (192 \<le> n \<and> n \<le> 222 \<and> n \<noteq> 215)
      then char_of (n + 32) else c)"

definition lower :: "string \<Rightarrow> string" where
  "lower s = map lower_char s"

text \<open>
  \<open>s.replace(old, new)\<close>: every occurrence of \<open>old\<close>, found from the left and not
  overlapping, becomes \<open>new\<close>. The counter is the number of characters of a found
  occurrence that are still to be skipped. The source calls it with a non-empty
  \<open>old\<close> only.
\<close>

fun replace_skip :: "string \<Rightarrow> string \<Rightarrow> nat \<Rightarrow> string \<Rightarrow> string" where
  "replace_skip old new k [] = []"
| "replace_skip old new (Suc k) (c # cs) = replace_skip old new k cs"
| "replace_skip old new 0 (c # cs) =
     (if startswith (c # cs) old then new @ replace_skip old new (length old - 1) cs
      else c # replace_skip old new 0 cs)"

definition replace :: "string \<Rightarrow> string \<Rightarrow> string \<Rightarrow> string" where
  "replace s old new = replace_skip old new 0 s"

text \<open>
  \<open>re.search(key + '="([^"]*)"', line)\<close>, returning group 1. The search tries every
  start position from the left; at a position, the literal must match, then the longest
  run of characters other than the double quote, then a double quote.
\<close>

definition match_attr :: "string \<Rightarrow> string \<Rightarrow> string option" where
  "match_attr key s =
     (if startswith s (key @ [CHR ''='', dquote]) then
        (let rest = drop (length key + 2) s;
             v = takeWhile (\<lambda>c. c \<noteq> dquote) rest
         in if length v < length rest then Some v else None)
      else None)"

fun search_attr :: "string \<Rightarrow> string \<Rightarrow> string option" where
  "search_attr key [] = None"
| "search_attr key (c # cs) =
     (case match_attr key (c # cs) of
        Some v \<Rightarrow> Some v
      | None \<Rightarrow> search_attr key cs)"

text \<open>
  \<open>re.search(r',(.+)$', line)\<close>, returning group 1. At a comma, \<open>.+\<close> takes the
  longest non-empty run of characters other than the line feed, and \<open>$\<close> then needs
  the end of the string or a single line feed that ends it.
\<close>

definition match_name :: "string \<Rightarrow> string option" where
  "match_name rest =
     (let g = takeWhile (\<lambda>c. c \<noteq> newline) rest;
          r = drop (length g) rest
      in if g \<noteq> [] \<and> (r = [] \<or> r = [newline]) then Some g else None)"

fun search_name :: "string \<Rightarrow> string option" where
  "search_name [] = None"
| "search_name (c # cs) =
     (if c = CHR '','' then
        (case match_name cs of
           Some g \<Rightarrow> Some g
         | None \<Rightarrow> search_name cs)
      else search_name cs)"

text \<open>\<open>re.sub(r'\s+', ' ', s)\<close>: every maximal run of whitespace becomes one space.\<close>

function sub_spaces :: "string \<Rightarrow> string" where
  "sub_spaces [] = []"
| "sub_spaces (c # cs) =
     (if isspace c then CHR '' '' # sub_spaces (dropWhile isspace cs)
      else c # sub_spaces cs)"
  by pat_completeness auto
termination
  by (relation "measure length") (auto simp: less_Suc_eq_le length_dropWhile_le)

section \<open>The digest of \<open>hashlib.md5\<close>\<close>

type_synonym u32 = "32 word"
type_synonym byte = "8 word"

definition md5_K :: "u32 list" where
  "md5_K =
    [0xd76aa478, 0xe8c7b756, 0x242070db, 0xc1bdceee, 0xf57c0faf, 0x4787c62a, 0xa8304613,
     0xfd469501, 0x698098d8, 0x8b44f7af, 0xffff5bb1, 0x895cd7be, 0x6b901122, 0xfd987193,
     0xa679438e, 0x49b40821, 0xf61e2562, 0xc040b340, 0x265e5a51, 0xe9b6c7aa, 0xd62f105d,
     0x02441453, 0xd8a1e681, 0xe7d3fbc8, 0x21e1cde6, 0xc33707d6, 0xf4d50d87, 0x455a14ed,
     0xa9e3e905, 0xfcefa3f8, 0x676f02d9, 0x8d2a4c8a, 0xfffa3942, 0x8771f681, 0x6d9d6122,
     0xfde5380c, 0xa4beea44, 0x4bdecfa9, 0xf6bb4b60, 0xbebfbc70, 0x289b7ec6, 0xeaa127fa,
     0xd4ef3085, 0x04881d05, 0xd9d4d039, 0xe6db99e5, 0x1fa27cf8, 0xc4ac5665, 0xf4292244,
     0x432aff97, 0xab9423a7, 0xfc93a039, 0x655b59c3, 0x8f0ccc92, 0xffeff47d, 0x85845dd1,
     0x6fa87e4f, 0xfe2ce6e0, 0xa3014314, 0x4e0811a1, 0xf7537e82, 0xbd3af235, 0x2ad7d2bb,
     0xeb86d391]"

definition md5_S :: "nat list" where
  "md5_S =
    [7, 12, 17, 22, 7, 12, 17, 22, 7, 12, 17, 22, 7, 12, 17, 22,
     5, 9, 14, 20, 5, 9, 14, 20, 5, 9, 14, 20, 5, 9, 14, 20,
     4, 11, 16, 23, 4, 11, 16, 23, 4, 11, 16, 23, 4, 11, 16, 23,
     6, 10, 15, 21, 6, 10, 15, 21, 6, 10, 15, 21, 6, 10, 15, 21]"

definition md5_F :: "nat \<Rightarrow> u32 \<Rightarrow> u32 \<Rightarrow> u32 \<Rightarrow> u32" where
  "md5_F i b c d =
     (if i < 16 then (b AND c) OR (NOT b AND d)
      else if i < 32 then (d AND b) OR (NOT d AND c)
      else if i < 48 then b XOR c XOR d
      else c XOR (b OR NOT d))"

definition md5_g :: "nat \<Rightarrow> nat" where
  "md5_g i =
     (if i < 16 then i
      else if i < 32 then (5 * i + 1) mod 16
      else if i < 48 then (3 * i + 5) mod 16
      else (7 * i) mod 16)"

definition md5_round ::
  "u32 list \<Rightarrow> u32 \<times> u32 \<times> u32 \<times> u32 \<Rightarrow> nat \<Rightarrow> u32 \<times> u32 \<times> u32 \<times> u32" where
  "md5_round m st i =
     (case st of (a, b, c, d) \<Rightarrow>
        (d, b + word_rotl (md5_S ! i) (md5_F i b c d + a + md5_K ! i + m ! md5_g i), b, c))"

fun le_word :: "byte list \<Rightarrow> u32" where
  "le_word [] = 0"
| "le_word (x # xs) = ucast x + push_bit 8 (le_word xs)"

fun chunks :: "nat \<Rightarrow> nat \<Rightarrow> 'a list \<Rightarrow> 'a list list" where
  "chunks 0 n xs = []"
| "chunks (Suc k) n xs = take n xs # chunks k n (drop n xs)"

definition md5_block ::
  "u32 \<times> u32 \<times> u32 \<times> u32 \<Rightarrow> byte list \<Rightarrow> u32 \<times> u32 \<times> u32 \<times> u32" where
  "md5_block h blk =
     (let m = map le_word (chunks 16 4 blk) in
      case (h, foldl (md5_round m) h [0..<64]) of
        ((a0, b0, c0, d0), (a, b, c, d)) \<Rightarrow> (a0 + a, b0 + b, c0 + c, d0 + d))"

fun le_bytes :: "nat \<Rightarrow> nat \<Rightarrow> byte list" where
  "le_bytes 0 n = []"
| "le_bytes (Suc k) n = of_nat (n mod 256) # le_bytes k (n div 256)"

definition md5_pad :: "byte list \<Rightarrow> byte list" where
  "md5_pad msg =
     msg @ [0x80] @ replicate ((55 + 64 - length msg mod 64) mod 64) 0
       @ le_bytes 8 (8 * length msg)"

definition hex_digit :: "nat \<Rightarrow> char" where
  "hex_digit n = ''0123456789abcdef'' ! n"

definition hex_byte :: "byte \<Rightarrow> string" where
  "hex_byte b = [hex_digit (unat b div 16), hex_digit (unat b mod 16)]"

definition word_bytes :: "u32 \<Rightarrow> byte list" where
  "word_bytes w = [ucast w, ucast (drop_bit 8 w), ucast (drop_bit 16 w), ucast (drop_bit 24 w)]"

definition md5_hexdigest :: "byte list \<Rightarrow> string" where
  "md5_hexdigest msg =
     (let p = md5_pad msg;
          h = foldl md5_block (0x67452301, 0xefcdab89, 0x98badcfe, 0x10325476)
                (chunks (length p div 64) 64 p)
      in case h of (a, b, c, d) \<Rightarrow>
           concat (map hex_byte (concat (map word_bytes [a, b, c, d]))))"

text \<open>\<open>s.encode('utf-8')\<close> for code points below 256.\<close>

definition encode_utf8 :: "string \<Rightarrow> byte list" where
  "encode_utf8 s =
     concat (map (\<lambda>c. let n = (of_char c :: nat) in
                       if n < 128 then [of_nat n]
                       else [of_nat (192 + n div 64), of_nat (128 + n mod 64)]) s)"

section \<open>The collector\<close>

text \<open>
  A channel is a dictionary with fixed keys. \<open>current_channel\<close> of the playlist parser
  holds the keys of \<open>pending\<close>; the keys \<open>url\<close> and \<open>status\<close> are added later, and
  \<open>status\<close> may stay absent (\<open>None\<close>).
\<close>

record pending =
  ch_id :: string
  ch_name :: string
  ch_logo :: string
  ch_group :: string
  ch_tvg_id :: string
  ch_source :: string
  ch_added_date :: string

record channel = pending +
  ch_url :: string
  ch_status :: "string option"

text \<open>
  \<open>self.channels\<close> is a \<open>defaultdict(list)\<close>: the groups in the order of their first
  channel, each with its channels in insertion order.
\<close>

type_synonym store = "(string \<times> channel list) list"

record collector =
  channels :: store
  seen_urls :: "string set"
  url_status_cache :: "string \<rightharpoonup> bool \<times> string"
  check_links :: bool

definition default_logo :: string where
  "default_logo = ''https://via.placeholder.com/100x100.png?text=AniXLinks''"

text \<open>\<open>self.channels[group].append(ch)\<close>.\<close>

fun append_channel :: "store \<Rightarrow> string \<Rightarrow> channel \<Rightarrow> store" where
  "append_channel [] g ch = [(g, [ch])]"
| "append_channel ((k, chans) # rest) g ch =
     (if k = g then (k, chans @ [ch]) # rest else (k, chans) # append_channel rest g ch)"

text \<open>\<open>[(group, ch) for group, chans in self.channels.items() for ch in chans]\<close>.\<close>

definition all_channels :: "store \<Rightarrow> (string \<times> channel) list" where
  "all_channels st = concat (map (\<lambda>(g, chans). map (Pair g) chans) st)"

definition total_channels :: "store \<Rightarrow> nat" where
  "total_channels st = sum_list (map (\<lambda>(g, chans). length chans) st)"

definition generate_channel_id :: "string \<Rightarrow> string \<Rightarrow> string" where
  "generate_channel_id name url =
     take 8 (md5_hexdigest (encode_utf8 (name @ ''_'' @ url)))"

section \<open>The playlist parser\<close>

text \<open>
  The wall clock of \<open>datetime.now\<close> is the parameter \<open>now\<close>. The loop state is the
  collector, \<open>current_channel\<close> (\<open>None\<close> for the empty dictionary) and
  \<open>channel_count\<close>.
\<close>

definition extinf_channel :: "string \<Rightarrow> string \<Rightarrow> string \<Rightarrow> pending" where
  "extinf_channel now source_url line =
     (let logo = (case search_attr ''tvg-logo'' line of
                    Some v \<Rightarrow> if v \<noteq> [] then v else default_logo
                  | None \<Rightarrow> default_logo);
          grp = (case search_attr ''group-title'' line of
                   Some v \<Rightarrow> v
                 | None \<Rightarrow> ''General'');
          tvg_id = (case search_attr ''tvg-id'' line of
                      Some v \<Rightarrow> v
                    | None \<Rightarrow> []);
          name0 = (case search_name line of
                     Some v \<Rightarrow> strip v
                   | None \<Rightarrow> ''Unknown Channel'');
          name = strip (sub_spaces name0)
      in \<lparr>ch_id = generate_channel_id name source_url, ch_name = name, ch_logo = logo,
          ch_group = grp, ch_tvg_id = tvg_id, ch_source = source_url,
          ch_added_date = now\<rparr>)"

definition is_extinf :: "string \<Rightarrow> bool" where
  "is_extinf line = startswith line ''#EXTINF:''"

definition is_url_line :: "string \<Rightarrow> bool" where
  "is_url_line line =
     (startswith line ''http://'' \<or> startswith line ''https://''
      \<or> startswith line ''rtmp://'' \<or> startswith line ''rtsp://'')"

definition with_url :: "pending \<Rightarrow> string \<Rightarrow> channel" where
  "with_url p line =
     \<lparr>ch_id = ch_id p, ch_name = ch_name p, ch_logo = ch_logo p, ch_group = ch_group p,
      ch_tvg_id = ch_tvg_id p, ch_source = ch_source p, ch_added_date = ch_added_date p,
      ch_url = line, ch_status = None\<rparr>"

type_synonym m3u_state = "collector \<times> pending option \<times> nat"

fun m3u_line :: "string \<Rightarrow> string \<Rightarrow> m3u_state \<Rightarrow> string \<Rightarrow> m3u_state" where
  "m3u_line now source_url (c, current_channel, channel_count) raw =
     (let line = strip raw in
      if is_extinf line then
        (c, Some (extinf_channel now source_url line), channel_count)
      else if is_url_line line \<and> current_channel \<noteq> None then
        (case current_channel of
           Some p \<Rightarrow>
             if line \<notin> seen_urls c then
               (c\<lparr>seen_urls := insert line (seen_urls c),
                  channels := append_channel (channels c) (ch_group p) (with_url p line)\<rparr>,
                None, channel_count + 1)
             else (c, None, channel_count)
         | None \<Rightarrow> (c, None, channel_count))
      else (c, current_channel, channel_count))"

definition m3u_lines :: "string \<Rightarrow> string \<Rightarrow> m3u_state \<Rightarrow> string list \<Rightarrow> m3u_state" where
  "m3u_lines now source_url st lines = foldl (m3u_line now source_url) st lines"

definition parse_m3u_content :: "string \<Rightarrow> collector \<Rightarrow> string list \<Rightarrow> string \<Rightarrow> collector" where
  "parse_m3u_content now c lines source_url =
     fst (m3u_lines now source_url (c, None, 0) lines)"

section \<open>The JSON parser\<close>

text \<open>
  An exception that no handler of the program catches, by the name of its class. A
  function that can raise one returns it together with the collector as it was when the
  exception was raised (\<open>None\<close> when it returned).
\<close>

datatype exception = Exception string

text \<open>
  \<open>json.loads\<close> is the parameter \<open>json_loads\<close>; its result is a decoding error
  (\<open>json.JSONDecodeError\<close>, which \<open>parse_json_content\<close> catches), an exception of
  another class (\<open>RecursionError\<close> on deeply nested input), a value that is not a list, or
  a list of items. An item is a dictionary from keys to strings, or a value that is not
  a dictionary.
\<close>

datatype json_item = NotDict | Dict "string \<rightharpoonup> string"

datatype json_doc = JSONDecodeError | Raises exception | NotList | JList "json_item list"

definition dict_get :: "(string \<rightharpoonup> string) \<Rightarrow> string \<Rightarrow> string \<Rightarrow> string" where
  "dict_get d k dflt = (case d k of Some v \<Rightarrow> v | None \<Rightarrow> dflt)"

fun parse_item :: "string \<Rightarrow> string \<Rightarrow> collector \<times> nat \<Rightarrow> json_item \<Rightarrow> collector \<times> nat" where
  "parse_item now source_url (c, channel_count) NotDict = (c, channel_count)"
| "parse_item now source_url (c, channel_count) (Dict item) =
     (if item ''url'' \<noteq> None then
        (let name = dict_get item ''name'' ''Unknown Channel'';
             url = dict_get item ''url'' [];
             logo = dict_get item ''img'' (dict_get item ''logo'' default_logo);
             grp = dict_get item ''type'' (dict_get item ''category'' ''General'')
         in if url \<noteq> [] \<and> url \<notin> seen_urls c then
              (c\<lparr>seen_urls := insert url (seen_urls c),
                 channels := append_channel (channels c) grp
                   \<lparr>ch_id = generate_channel_id name url, ch_name = name, ch_logo = logo,
                    ch_group = grp, ch_tvg_id = [], ch_source = source_url,
                    ch_added_date = now, ch_url = url, ch_status = None\<rparr>\<rparr>,
               channel_count + 1)
            else (c, channel_count))
      else (c, channel_count))"

definition parse_json_content ::
  "(string \<Rightarrow> json_doc) \<Rightarrow> string \<Rightarrow> collector \<Rightarrow> string \<Rightarrow> string
     \<Rightarrow> exception option \<times> collector" where
  "parse_json_content json_loads now c content source_url =
     (case json_loads content of
        JSONDecodeError \<Rightarrow> (None, c)
      | Raises x \<Rightarrow> (Some x, c)
      | NotList \<Rightarrow> (None, c)
      | JList items \<Rightarrow> (None, fst (foldl (parse_item now source_url) (c, 0) items)))"

section \<open>The liveness probe\<close>

text \<open>
  The network is the parameter \<open>net\<close>: what \<open>session.head\<close> or \<open>session.get\<close>
  does for a URL, a response with its status code, a \<open>requests.RequestException\<close>, or
  an exception of another class. The probe returns its result (\<open>Inl\<close> when an
  exception leaves the function), the cache, and the requests it made, in order.
\<close>

datatype http_method = HEAD | GET

datatype response = Status nat | RequestException | OtherException

datatype request = Request http_method string

type_synonym network = "http_method \<Rightarrow> string \<Rightarrow> response"

type_synonym cache = "string \<rightharpoonup> bool \<times> string"

type_synonym outcome = "unit + bool \<times> string"

definition alt_url :: "string \<Rightarrow> string" where
  "alt_url url =
     (if startswith url ''https://'' then replace url ''https://'' ''http://''
      else replace url ''http://'' ''https://'')"

text \<open>The part of \<open>check_link_active\<close> from the computation of \<open>alt_url\<close> on.\<close>

definition check_alt :: "network \<Rightarrow> cache \<Rightarrow> string \<Rightarrow> request list \<Rightarrow> outcome \<times> cache \<times> request list" where
  "check_alt net cache url sent =
     (let inactive = (Inr (False, url), cache(url \<mapsto> (False, url))) in
      if alt_url url \<noteq> url then
        (case net HEAD (alt_url url) of
           Status code \<Rightarrow>
             if code < 400 then
               (Inr (True, alt_url url), cache(url \<mapsto> (True, alt_url url)),
                sent @ [Request HEAD (alt_url url)])
             else (fst inactive, snd inactive, sent @ [Request HEAD (alt_url url)])
         | RequestException \<Rightarrow>
             (fst inactive, snd inactive, sent @ [Request HEAD (alt_url url)])
         | OtherException \<Rightarrow> (Inl (), cache, sent @ [Request HEAD (alt_url url)]))
      else (fst inactive, snd inactive, sent))"

definition check_link_active :: "network \<Rightarrow> cache \<Rightarrow> string \<Rightarrow> outcome \<times> cache \<times> request list" where
  "check_link_active net cache url =
     (case cache url of
        Some r \<Rightarrow> (Inr r, cache, [])
      | None \<Rightarrow>
          (case net HEAD url of
             Status code \<Rightarrow>
               if code < 400 then
                 (Inr (True, url), cache(url \<mapsto> (True, url)), [Request HEAD url])
               else check_alt net cache url [Request HEAD url]
           | RequestException \<Rightarrow>
               (case net GET url of
                  Status code \<Rightarrow>
                    if code < 400 then
                      (Inr (True, url), cache(url \<mapsto> (True, url)),
                       [Request HEAD url, Request GET url])
                    else check_alt net cache url [Request HEAD url, Request GET url]
                | RequestException \<Rightarrow>
                    check_alt net cache url [Request HEAD url, Request GET url]
                | OtherException \<Rightarrow> (Inl (), cache, [Request HEAD url, Request GET url]))
           | OtherException \<Rightarrow> (Inl (), cache, [Request HEAD url])))"

section \<open>The validation stage\<close>

text \<open>
  The pool runs one probe per channel; \<open>run_probes\<close> is the schedule that runs them
  one after the other in the order of submission, sharing the cache. The order in which
  the probes complete is the parameter \<open>as_completed\<close>. A channel whose probe raised
  is logged and left out; a channel found inactive gets its status on a dictionary that
  the new store does not hold.
\<close>

fun run_probes :: "network \<Rightarrow> cache \<Rightarrow> string list \<Rightarrow> outcome list \<times> cache" where
  "run_probes net cache [] = ([], cache)"
| "run_probes net cache (url # urls) =
     (case check_link_active net cache url of
        (r, cache', sent) \<Rightarrow>
          (case run_probes net cache' urls of
             (rs, cache'') \<Rightarrow> (r # rs, cache'')))"

type_synonym future = "(string \<times> channel) \<times> outcome"

fun collect_active :: "store \<Rightarrow> future \<Rightarrow> store" where
  "collect_active active_channels ((g, ch), Inr (is_active, updated_url)) =
     (if is_active then
        append_channel active_channels g (ch\<lparr>ch_url := updated_url, ch_status := Some ''active''\<rparr>)
      else active_channels)"
| "collect_active active_channels ((g, ch), Inl e) = active_channels"

definition filter_active_channels ::
  "network \<Rightarrow> (future list \<Rightarrow> future list) \<Rightarrow> collector \<Rightarrow> collector" where
  "filter_active_channels net as_completed c =
     (if \<not> check_links c then c
      else
        (let all = all_channels (channels c) in
         case run_probes net (url_status_cache c) (map (\<lambda>(g, ch). ch_url ch) all) of
           (results, cache') \<Rightarrow>
             c\<lparr>channels := foldl collect_active [] (as_completed (zip all results)),
               url_status_cache := cache'\<rparr>))"

section \<open>The driver\<close>

text \<open>What an exporter hands to the file system.\<close>

record exported_channel =
  x_id :: string
  x_name :: string
  x_url :: string
  x_logo :: string
  x_tvg_id :: string
  x_source :: string
  x_added_date :: string
  x_status :: string

record export_data =
  meta_generated_at :: string
  meta_generated_at_readable :: string
  meta_total_channels :: nat
  meta_total_groups :: nat
  meta_groups :: "string list"
  data_channels :: "(string \<times> exported_channel list) list"

record stats =
  stats_generated_at :: string
  stats_total_channels :: nat
  stats_total_groups :: nat
  stats_groups_breakdown :: "(string \<times> nat) list"
  stats_active_channels :: "nat option"

datatype file_content = JsonExport export_data | PlaylistText "string list" | StatsJson stats

text \<open>
  The environment of a run: the fetcher (\<open>(None, [])\<close> when every attempt failed), the
  JSON decoder, the HTML scraper (the list of URLs it returns, or the exception it
  raises), the order in which the set of discovered URLs is iterated, the network behind
  \<open>self.session\<close>, the completion order of the pool, the clock in its two renderings,
  the variable \<open>SKIP_LINK_CHECK\<close> (\<open>None\<close> when it is not set), and the file system:
  what \<open>os.makedirs\<close> does for a directory and what opening and writing a file does,
  \<open>None\<close> when it is done and the exception otherwise.
\<close>

record env =
  fetch_content :: "string \<Rightarrow> string option \<times> string list"
  json_loads :: "string \<Rightarrow> json_doc"
  extract_stream_urls_from_html :: "string \<Rightarrow> string \<Rightarrow> exception + string list"
  set_order :: "string set \<Rightarrow> string list"
  session :: network
  completion_order :: "future list \<Rightarrow> future list"
  clock :: string
  clock_readable :: string
  getenv_skip_link_check :: "string option"
  makedirs :: "string \<Rightarrow> exception option"
  write_file :: "string \<Rightarrow> file_content \<Rightarrow> exception option"

datatype parser = HtmlScraper | JsonParser | PlaylistParser

text \<open>The \<open>if\<close>/\<open>elif\<close>/\<open>else\<close> of the first loop of \<open>process_sources\<close>.\<close>

definition route :: "string \<Rightarrow> string \<Rightarrow> parser" where
  "route url content =
     (if endswith url ''.html'' \<or> contains ''html'' (lower url) then HtmlScraper
      else if endswith url ''.json'' \<or> contains ''json'' (lower (take 100 content))
      then JsonParser
      else PlaylistParser)"

text \<open>One pass of the first loop of \<open>process_sources\<close>.\<close>

fun process_source ::
  "env \<Rightarrow> collector \<times> string set \<Rightarrow> string \<Rightarrow> exception option \<times> collector \<times> string set" where
  "process_source e (c, all_m3u_urls) url =
     (case fetch_content e url of
        (None, lines) \<Rightarrow> (None, c, all_m3u_urls)
      | (Some content, lines) \<Rightarrow>
          if content = [] then (None, c, all_m3u_urls)
          else
            (case route url content of
               HtmlScraper \<Rightarrow>
                 (case extract_stream_urls_from_html e content url of
                    Inl x \<Rightarrow> (Some x, c, all_m3u_urls)
                  | Inr m3u_urls \<Rightarrow> (None, c, all_m3u_urls \<union> set m3u_urls))
             | JsonParser \<Rightarrow>
                 (case parse_json_content (json_loads e) (clock e) c content url of
                    (raised, c') \<Rightarrow> (raised, c', all_m3u_urls))
             | PlaylistParser \<Rightarrow>
                 (None, parse_m3u_content (clock e) c lines url, all_m3u_urls)))"

text \<open>The first loop: it ends at the first exception.\<close>

fun sources_loop ::
  "env \<Rightarrow> collector \<times> string set \<Rightarrow> string list \<Rightarrow> exception option \<times> collector \<times> string set" where
  "sources_loop e st [] = (None, st)"
| "sources_loop e st (url # source_urls) =
     (case process_source e st url of
        (Some x, st') \<Rightarrow> (Some x, st')
      | (None, st') \<Rightarrow> sources_loop e st' source_urls)"

definition process_discovered :: "env \<Rightarrow> collector \<Rightarrow> string \<Rightarrow> collector" where
  "process_discovered e c m3u_url =
     (case fetch_content e m3u_url of
        (content, lines) \<Rightarrow>
          if lines \<noteq> [] then parse_m3u_content (clock e) c lines m3u_url else c)"

definition clear :: "collector \<Rightarrow> collector" where
  "clear c = c\<lparr>channels := [], seen_urls := {}, url_status_cache := Map.empty\<rparr>"

text \<open>The two loops of \<open>process_sources\<close>, which fill the store.\<close>

definition ingest :: "env \<Rightarrow> collector \<Rightarrow> string list \<Rightarrow> exception option \<times> collector" where
  "ingest e c source_urls =
     (case sources_loop e (clear c, {}) source_urls of
        (Some x, c1, all_m3u_urls) \<Rightarrow> (Some x, c1)
      | (None, c1, all_m3u_urls) \<Rightarrow>
          (None, foldl (process_discovered e) c1 (set_order e all_m3u_urls)))"

definition process_sources ::
  "env \<Rightarrow> collector \<Rightarrow> string list \<Rightarrow> exception option \<times> collector" where
  "process_sources e c source_urls =
     (case ingest e c source_urls of
        (Some x, c2) \<Rightarrow> (Some x, c2)
      | (None, c2) \<Rightarrow>
          (None,
           if channels c2 \<noteq> [] then
             filter_active_channels (session e) (completion_order e) c2
           else c2))"

definition get_premium_sources :: "string list" where
  "get_premium_sources =
    [''https://raw.githubusercontent.com/sydul104/main04/refs/heads/main/my'',
     ''https://raw.githubusercontent.com/Miraz6755/Bdixtv/refs/heads/main/Livetv.m3u8'',
     ''https://raw.githubusercontent.com/Yeadee/Toffee/refs/heads/main/toffee_ns_player.m3u'',
     ''https://raw.githubusercontent.com/MohammadJoyChy/BDIXTV/refs/heads/main/Aynaott'',
     ''https://raw.githubusercontent.com/skjahangirkabir/Bdix-549.m3u/refs/heads/main/BDIX-549.m3u8'',
     ''https://raw.githubusercontent.com/Arunjunan20/My-IPTV/refs/heads/main/index.html'',
     ''https://raw.githubusercontent.com/AHIL44444/GAZI-LIVE-TV-M3U8/refs/heads/main/index.html'',
     ''https://aynaxpranto.vercel.app/files/playlist.m3u'',
     ''https://raw.githubusercontent.com/tanvir907/bdix/refs/heads/main/bdix.m3u'',
     ''https://raw.githubusercontent.com/shuvo880/iptv/refs/heads/master/MiME%20(SHUVO)'',
     ''https://raw.githubusercontent.com/Shaharum1010/SmartFlix_Tv_Web/refs/heads/main/SmartFlixtv'',
     ''https://raw.githubusercontent.com/mr-masudrana/LiveTV/refs/heads/main/Bangla_Playlist.m3u'',
     ''https://raw.githubusercontent.com/mr-masudrana/Web_Player-IPTV/refs/heads/main/channels.json'',
     ''https://iptv-org.github.io/iptv/countries/bd.m3u'',
     ''https://raw.githubusercontent.com/FreeIPTV/Countries/master/BD_Bangladesh.m3u'',
     ''https://raw.githubusercontent.com/Free-TV/IPTV/master/playlist/BD.m3u8'']"

section \<open>The exporters\<close>

text \<open>
  \<open>sorted(self.channels.items())\<close>: the groups in the order of their labels. The labels
  are strings here, as every value of a catalogue item is, and compare by code point; a
  label of another type, on which \<open>sorted\<close> raises \<open>TypeError\<close>, is not in this model.
\<close>

fun str_less :: "string \<Rightarrow> string \<Rightarrow> bool" where
  "str_less [] [] = False"
| "str_less [] (y # ys) = True"
| "str_less (x # xs) [] = False"
| "str_less (x # xs) (y # ys) =
     ((of_char x :: nat) < of_char y \<or> (x = y \<and> str_less xs ys))"

fun insert_item :: "string \<times> 'a \<Rightarrow> (string \<times> 'a) list \<Rightarrow> (string \<times> 'a) list" where
  "insert_item x [] = [x]"
| "insert_item x (y # ys) =
     (if str_less (fst x) (fst y) then x # y # ys else y # insert_item x ys)"

definition sorted_items :: "(string \<times> 'a) list \<Rightarrow> (string \<times> 'a) list" where
  "sorted_items st = foldl (\<lambda>acc x. insert_item x acc) [] st"

definition output_dir :: string where
  "output_dir = ''LiveTV/Bangladesh''"

definition os_path_join :: "string \<Rightarrow> string \<Rightarrow> string" where
  "os_path_join dir filename = dir @ ''/'' @ filename"

text \<open>
  An exporter builds its data from the collector and writes the file; it returns the
  path, or the exception of the file system. It does not change the collector.
\<close>

definition export_anixlinks_json :: "env \<Rightarrow> collector \<Rightarrow> string \<Rightarrow> exception + string" where
  "export_anixlinks_json e c filename =
     (let filepath = os_path_join output_dir filename;
          data = \<lparr>meta_generated_at = clock e,
                  meta_generated_at_readable = clock_readable e,
                  meta_total_channels = total_channels (channels c),
                  meta_total_groups = length (channels c),
                  meta_groups = map fst (channels c),
                  data_channels =
                    map (\<lambda>(g, chans).
                           (g, map (\<lambda>ch. \<lparr>x_id = ch_id ch, x_name = ch_name ch, x_url = ch_url ch,
                                           x_logo = ch_logo ch, x_tvg_id = ch_tvg_id ch,
                                           x_source = ch_source ch,
                                           x_added_date = ch_added_date ch,
                                           x_status = (case ch_status ch of
                                                         Some v \<Rightarrow> v
                                                       | None \<Rightarrow> ''unknown'')\<rparr>) chans))
                      (sorted_items (channels c))\<rparr>
      in case write_file e filepath (JsonExport data) of
           Some x \<Rightarrow> Inl x
         | None \<Rightarrow> Inr filepath)"

definition extinf_line :: "string \<Rightarrow> channel \<Rightarrow> string" where
  "extinf_line g ch =
     ''#EXTINF:-1 tvg-id='' @ [dquote] @ ch_tvg_id ch @ [dquote]
       @ '' tvg-logo='' @ [dquote] @ ch_logo ch @ [dquote]
       @ '' group-title='' @ [dquote] @ g @ [dquote] @ '','' @ ch_name ch"

definition export_m3u :: "env \<Rightarrow> collector \<Rightarrow> string \<Rightarrow> exception + string" where
  "export_m3u e c filename =
     (let filepath = os_path_join output_dir filename;
          text =
            [''#EXTM3U'',
             ''#EXTINF:-1,AniXLinks - Generated by Aniket (@aniket_aep)'',
             ''#EXTVLCOPT:http-user-agent=AniXLinks/2.0.2'',
             []]
            @ concat (map (\<lambda>(g, chans). concat (map (\<lambda>ch. [extinf_line g ch, ch_url ch]) chans))
                        (sorted_items (channels c)))
      in case write_file e filepath (PlaylistText text) of
           Some x \<Rightarrow> Inl x
         | None \<Rightarrow> Inr filepath)"

definition export_stats :: "env \<Rightarrow> collector \<Rightarrow> string \<Rightarrow> exception + string" where
  "export_stats e c filename =
     (let filepath = os_path_join output_dir filename;
          st = \<lparr>stats_generated_at = clock e,
                stats_total_channels = total_channels (channels c),
                stats_total_groups = length (channels c),
                stats_groups_breakdown = map (\<lambda>(g, chans). (g, length chans)) (channels c),
                stats_active_channels =
                  (if check_links c then
                     Some (length (filter (\<lambda>(g, ch). ch_status ch = Some ''active'')
                                     (all_channels (channels c))))
                   else None)\<rparr>
      in case write_file e filepath (StatsJson st) of
           Some x \<Rightarrow> Inl x
         | None \<Rightarrow> Inr filepath)"

section \<open>The program\<close>

text \<open>
  \<open>main\<close> returns the exception that ended the run, if one did, the exit status of the
  process and the collector it ended with. The constructor of the collector makes the
  output directory; then the sources are processed, the three files are written, and
  the total is tested. An exception that nothing catches ends the process with status
  1, as \<open>sys.exit(1)\<close> does.
\<close>

definition new_collector :: "bool \<Rightarrow> collector" where
  "new_collector check =
     \<lparr>channels = [], seen_urls = {}, url_status_cache = Map.empty, check_links = check\<rparr>"

definition main :: "env \<Rightarrow> exception option \<times> int \<times> collector" where
  "main e =
     (let getenv = (case getenv_skip_link_check e of Some v \<Rightarrow> v | None \<Rightarrow> ''false'');
          c0 = new_collector (lower getenv \<noteq> ''true'')
      in case makedirs e output_dir of
           Some x \<Rightarrow> (Some x, 1, c0)
         | None \<Rightarrow>
             (case process_sources e c0 get_premium_sources of
                (Some x, c) \<Rightarrow> (Some x, 1, c)
              | (None, c) \<Rightarrow>
                  (case export_anixlinks_json e c ''AniXLinks.json'' of
                     Inl x \<Rightarrow> (Some x, 1, c)
                   | Inr json_path \<Rightarrow>
                       (case export_m3u e c ''AniXLinks.m3u'' of
                          Inl x \<Rightarrow> (Some x, 1, c)
                        | Inr m3u_path \<Rightarrow>
                            (case export_stats e c ''stats.json'' of
                               Inl x \<Rightarrow> (Some x, 1, c)
                             | Inr stats_path \<Rightarrow>
                                 (let total = total_channels (channels c)
                                  in (None, if total = 0 then 1 else 0, c)))))))"

section \<open>Properties of a run\<close>

definition store_urls :: "store \<Rightarrow> string list" where
  "store_urls st = map (\<lambda>(g, ch). ch_url ch) (all_channels st)"

text \<open>
  The URLs of the store are pairwise different, none is empty, and all are in
  \<open>seen_urls\<close>.
\<close>

definition unique_urls :: "collector \<Rightarrow> bool" where
  "unique_urls c \<longleftrightarrow>
     distinct (store_urls (channels c)) \<and> set (store_urls (channels c)) \<subseteq> seen_urls c
     \<and> [] \<notin> set (store_urls (channels c))"

text \<open>
  One step from \<open>c\<close> to \<open>c'\<close> leaves the store and \<open>seen_urls\<close> as they are, or
  inserts one channel whose URL is not empty and was not in \<open>seen_urls\<close>, and adds
  that URL to \<open>seen_urls\<close>.
\<close>

definition admits :: "collector \<Rightarrow> collector \<Rightarrow> bool" where
  "admits c c' \<longleftrightarrow>
     (channels c' = channels c \<and> seen_urls c' = seen_urls c)
     \<or> (\<exists>g ch. channels c' = append_channel (channels c) g ch \<and> ch_url ch \<noteq> []
           \<and> ch_url ch \<notin> seen_urls c \<and> seen_urls c' = insert (ch_url ch) (seen_urls c))"

text \<open>
  The words of a string, as \<open>s.split()\<close> gives them, and \<open>' '.join(ws)\<close>: a string
  with its whitespace collapsed to single spaces is the join of its words.
\<close>

function words_ws :: "string \<Rightarrow> string list" where
  "words_ws [] = []"
| "words_ws (c # cs) =
     (if isspace c then words_ws cs
      else (c # takeWhile (\<lambda>x. \<not> isspace x) cs) # words_ws (dropWhile (\<lambda>x. \<not> isspace x) cs))"
  by pat_completeness auto
termination
  by (relation "measure length") (auto simp: less_Suc_eq_le length_dropWhile_le)

fun join_spaces :: "string list \<Rightarrow> string" where
  "join_spaces [] = []"
| "join_spaces [w] = w"
| "join_spaces (w # v # ws) = w @ CHR '' '' # join_spaces (v # ws)"

definition rstrip :: "string \<Rightarrow> string" where
  "rstrip s = rev (dropWhile isspace (rev s))"

text \<open>The text after the first comma of a line, and the text after its last comma.\<close>

definition after_first_comma :: "string \<Rightarrow> string" where
  "after_first_comma s = drop 1 (dropWhile (\<lambda>c. c \<noteq> CHR '','') s)"

definition after_final_comma :: "string \<Rightarrow> string" where
  "after_final_comma s = rev (takeWhile (\<lambda>c. c \<noteq> CHR '','') (rev s))"

text \<open>
  The first comma of a metadata line separates the attributes from the title: it is
  not inside a quoted attribute value, that is, the double quotes before it are paired.
\<close>

definition first_comma_separates :: "string \<Rightarrow> bool" where
  "first_comma_separates line =
     even (length (filter (\<lambda>c. c = dquote) (takeWhile (\<lambda>c. c \<noteq> CHR '','') line)))"

text \<open>
  The name that the words of the specification give a channel: the text after the final
  comma of the metadata line, with its whitespace collapsed to single spaces.
\<close>

definition claimed_name :: "string \<Rightarrow> string" where
  "claimed_name line = join_spaces (words_ws (after_final_comma line))"

text \<open>
  The routing that the words of the specification give a source: a URL that ends in or
  contains \<open>html\<close> goes to the HTML scraper; otherwise a URL that ends in or contains
  \<open>json\<close>, or whose content has \<open>json\<close> in its first 100 characters, goes to the JSON
  parser; the rest goes to the playlist parser.
\<close>

definition claimed_route :: "string \<Rightarrow> string \<Rightarrow> parser" where
  "claimed_route url content =
     (if endswith url ''html'' \<or> contains ''html'' url then HtmlScraper
      else if endswith url ''json'' \<or> contains ''json'' url
              \<or> contains ''json'' (lower (take 100 content))
      then JsonParser
      else PlaylistParser)"

text \<open>
  How the identity of a channel is derived: from its name and the URL of the source, or
  from its name and its own URL. The channels that a parser added are those of the
  store after it that were not in the store before.
\<close>

definition id_from_source :: "string \<Rightarrow> 'a pending_scheme \<Rightarrow> bool" where
  "id_from_source source_url ch \<longleftrightarrow>
     ch_id ch = generate_channel_id (ch_name ch) source_url \<and> ch_source ch = source_url"

definition id_from_url :: "channel \<Rightarrow> bool" where
  "id_from_url ch \<longleftrightarrow> ch_id ch = generate_channel_id (ch_name ch) (ch_url ch)"

definition new_channels :: "collector \<Rightarrow> collector \<Rightarrow> channel set" where
  "new_channels c c' = snd ` (set (all_channels (channels c')) - set (all_channels (channels c)))"

text \<open>A response that counts as a success of a probe: a status below 400.\<close>

definition succeeds :: "response \<Rightarrow> bool" where
  "succeeds r = (case r of Status code \<Rightarrow> code < 400 | _ \<Rightarrow> False)"

text \<open>
  The chain that the words of the specification give the probe: a header-only probe;
  on any failure of it a full-content probe; on continued failure a header-only probe
  of the URL with its scheme flipped; the first success ends the chain.
\<close>

definition claimed_flip :: "string \<Rightarrow> string" where
  "claimed_flip url =
     (if startswith url ''https://'' then ''http://'' @ drop 8 url
      else if startswith url ''http://'' then ''https://'' @ drop 7 url
      else url)"

definition claimed_check_link_active :: "network \<Rightarrow> string \<Rightarrow> (bool \<times> string) \<times> request list" where
  "claimed_check_link_active net url =
     (if succeeds (net HEAD url) then ((True, url), [Request HEAD url])
      else if succeeds (net GET url) then ((True, url), [Request HEAD url, Request GET url])
      else if succeeds (net HEAD (claimed_flip url)) then
        ((True, claimed_flip url),
         [Request HEAD url, Request GET url, Request HEAD (claimed_flip url)])
      else ((False, url), [Request HEAD url, Request GET url, Request HEAD (claimed_flip url)]))"

text \<open>Steps 1 and 2 ended without a success and without an exception of another class.\<close>

definition falls_through :: "network \<Rightarrow> string \<Rightarrow> bool" where
  "falls_through net url =
     (case net HEAD url of
        Status code \<Rightarrow> 400 \<le> code
      | RequestException \<Rightarrow>
          (case net GET url of
             Status code \<Rightarrow> 400 \<le> code
           | RequestException \<Rightarrow> True
           | OtherException \<Rightarrow> False)
      | OtherException \<Rightarrow> False)"

text \<open>The requests of steps 1 and 2 that the probe sends.\<close>

definition first_requests :: "network \<Rightarrow> string \<Rightarrow> request list" where
  "first_requests net url =
     (case net HEAD url of
        RequestException \<Rightarrow> [Request HEAD url, Request GET url]
      | _ \<Rightarrow> [Request HEAD url])"

text \<open>
  Two networks for examples: one whose host rejects \<open>HEAD\<close> with status 405 and answers
  \<open>GET\<close>, and one whose host answers under \<open>https\<close> only.
\<close>

definition head_rejected :: network where
  "head_rejected m u =
     (if u = ''http://a/x'' then (case m of HEAD \<Rightarrow> Status 405 | GET \<Rightarrow> Status 200)
      else RequestException)"

definition https_only :: network where
  "https_only m u =
     (if u = ''https://a/x'' \<and> m = HEAD then Status 200 else RequestException)"

text \<open>
  The result of the probe of a URL that is not in the cache, and a cache that holds
  such results only.
\<close>

definition probe :: "network \<Rightarrow> string \<Rightarrow> outcome" where
  "probe net url = fst (check_link_active net Map.empty url)"

definition cache_consistent :: "network \<Rightarrow> cache \<Rightarrow> bool" where
  "cache_consistent net cache \<longleftrightarrow> (\<forall>url r. cache url = Some r \<longrightarrow> probe net url = Inr r)"

text \<open>
  What the validation stage keeps of a channel: the channel with its URL rewritten and
  the status \<open>active\<close> when its probe succeeded, nothing otherwise.
\<close>

definition validate :: "network \<Rightarrow> string \<times> channel \<Rightarrow> (string \<times> channel) list" where
  "validate net x =
     (case x of (g, ch) \<Rightarrow>
        (case probe net (ch_url ch) of
           Inl e \<Rightarrow> []
         | Inr (is_active, updated_url) \<Rightarrow>
             if is_active then [(g, ch\<lparr>ch_url := updated_url, ch_status := Some ''active''\<rparr>)]
             else []))"

text \<open>No channel of the store has the key \<open>status\<close>.\<close>

definition no_status :: "collector \<Rightarrow> bool" where
  "no_status c \<longleftrightarrow> (\<forall>(g, ch)\<in>set (all_channels (channels c)). ch_status ch = None)"

fun activate :: "future \<Rightarrow> (string \<times> channel) list" where
  "activate ((g, ch), Inr (is_active, updated_url)) =
     (if is_active then [(g, ch\<lparr>ch_url := updated_url, ch_status := Some ''active''\<rparr>)] else [])"
| "activate ((g, ch), Inl e) = []"

text \<open>
  An environment for examples: a playlist that lists one URL twice, a catalogue that
  lists it again, a second URL with an empty logo, and an empty URL, and two more
  playlists, one of them at a URL of \<open>get_premium_sources\<close>. No probe gets an answer.
\<close>

definition demo_env :: env where
  "demo_env =
     \<lparr>fetch_content = (\<lambda>u.
        if u = ''http://s/a.m3u'' then
          (Some ''x'', [''#EXTM3U'', ''#EXTINF:-1,One'', ''http://h/1'',
                        ''#EXTINF:-1,Again'', '' http://h/1 ''])
        else if u = ''http://s/b.json'' then (Some ''[]'', [''[]''])
        else if u = ''http://s/json/list'' then
          (Some ''#EXTM3U'', [''#EXTM3U'', ''#EXTINF:-1,Three'', ''http://h/3''])
        else if u = ''https://iptv-org.github.io/iptv/countries/bd.m3u'' then
          (Some ''#EXTM3U'', [''#EXTM3U'', ''#EXTINF:-1,Four'', ''http://h/4''])
        else (None, [])),
      json_loads = (\<lambda>s. JList [Dict [''url'' \<mapsto> ''http://h/1''], NotDict,
                               Dict [''url'' \<mapsto> ''http://h/2'', ''img'' \<mapsto> []],
                               Dict [''url'' \<mapsto> []]]),
      extract_stream_urls_from_html = (\<lambda>s u. Inr []),
      set_order = (\<lambda>S. []),
      session = (\<lambda>m u. RequestException),
      completion_order = (\<lambda>fs. fs),
      clock = ''2026-01-01T00:00:00+05:30'',
      clock_readable = ''2026-01-01 00:00:00 IST'',
      getenv_skip_link_check = None,
      makedirs = (\<lambda>d. None),
      write_file = (\<lambda>p x. None)\<rparr>"




section \<open>Facts about the strings and the digest\<close>

lemma md5_abc: "md5_hexdigest (encode_utf8 ''abc'') = ''900150983cd24fb0d6963f7d28e17f72''"
  by code_simp

lemmas run_defs =
  ingest_def new_collector_def clear_def route_def endswith_def startswith_def lower_def
  lower_char_def parse_m3u_content_def m3u_lines_def parse_json_content_def Let_def strip_def
  isspace_def is_extinf_def is_url_line_def with_url_def store_urls_def all_channels_def
  dict_get_def m3u_line.simps char_of_def bit_Suc_0_iff

lemmas name_defs =
  extinf_channel_def search_attr.simps match_attr_def search_name.simps match_name_def
  dquote_def newline_def

section \<open>Replacing\<close>

lemma replace_skip_rest:
  "replace_skip old new (length xs) (xs @ s) = replace_skip old new 0 s"
  by (induction xs) simp_all

lemma replace_occurrence:
  assumes "old \<noteq> []"
  shows "replace (old @ s) old new = new @ replace s old new"
proof -
  obtain c cs where old: "old = c # cs"
    using assms by (cases old) auto
  have "replace_skip old new 0 (c # cs @ s) = new @ replace_skip old new (length cs) (cs @ s)"
    by (simp add: old startswith_def)
  then show ?thesis
    by (simp add: replace_def old replace_skip_rest)
qed

lemma replace_other:
  "\<not> startswith (c # cs) old \<Longrightarrow> replace (c # cs) old new = c # replace cs old new"
  by (simp add: replace_def)

lemma replace_Nil: "replace [] old new = []"
  by (simp add: replace_def)

section \<open>Whitespace\<close>

lemma strip_rstrip: "strip s = rstrip (dropWhile isspace s)"
  by (simp add: strip_def rstrip_def)

lemma rstrip_Nil_iff: "rstrip s = [] \<longleftrightarrow> (\<forall>c\<in>set s. isspace c)"
  by (simp add: rstrip_def dropWhile_eq_Nil_conv)

lemma rstrip_append:
  "rstrip (xs @ ys) = (if rstrip ys = [] then rstrip xs else xs @ rstrip ys)"
  by (simp add: rstrip_def dropWhile_append dropWhile_eq_Nil_conv)

lemma rstrip_Cons:
  "rstrip (x # s) = (if rstrip s = [] \<and> isspace x then [] else x # rstrip s)"
  using rstrip_append [of "[x]" s] by (simp add: rstrip_def)


lemma rstrip_Nil: "rstrip [] = []"
  by (simp add: rstrip_def)

lemma rstrip_nonspace: "\<forall>c\<in>set w. \<not> isspace c \<Longrightarrow> rstrip w = w"
  by (induction w) (simp_all add: rstrip_Cons rstrip_Nil)

lemma lstrip_rstrip: "dropWhile isspace (rstrip s) = rstrip (dropWhile isspace s)"
proof (induction s)
  case Nil
  then show ?case by (simp add: rstrip_Nil)
next
  case (Cons x s)
  show ?case
  proof (cases "isspace x")
    case True
    show ?thesis
    proof (cases "rstrip s = []")
      case True
      with Cons \<open>isspace x\<close> show ?thesis by (simp add: rstrip_Cons)
    next
      case False
      with Cons \<open>isspace x\<close> show ?thesis by (simp add: rstrip_Cons)
    qed
  next
    case False
    then show ?thesis by (simp add: rstrip_Cons)
  qed
qed

lemma sub_spaces_nonspace:
  "\<forall>c\<in>set w. \<not> isspace c \<Longrightarrow> sub_spaces (w @ s) = w @ sub_spaces s"
  by (induction w) simp_all

lemma words_ws_Nil_iff: "words_ws s = [] \<longleftrightarrow> (\<forall>c\<in>set s. isspace c)"
  by (induction s rule: words_ws.induct) simp_all

lemma join_spaces_Cons:
  "join_spaces (w # ws) = (if ws = [] then w else w @ CHR '' '' # join_spaces ws)"
  by (cases ws) simp_all


lemma sub_spaces_rstrip_gap:
  assumes IH: "sub_spaces (rstrip (dropWhile isspace r)) = join_spaces (words_ws r)"
    and r: "r = [] \<or> isspace (hd r)"
  shows "sub_spaces (rstrip r) =
           (if words_ws r = [] then [] else CHR '' '' # join_spaces (words_ws r))"
proof (cases r)
  case Nil
  then show ?thesis by (simp add: rstrip_Nil)
next
  case (Cons x r')
  with r have x: "isspace x" by simp
  show ?thesis
  proof (cases "rstrip r' = []")
    case True
    then have "words_ws r = []"
      using x Cons by (simp add: words_ws_Nil_iff rstrip_Nil_iff)
    with True x Cons show ?thesis by (simp add: rstrip_Cons)
  next
    case False
    then have ne: "words_ws r \<noteq> []"
      using Cons by (simp add: words_ws_Nil_iff rstrip_Nil_iff)
    have "sub_spaces (rstrip r) = CHR '' '' # sub_spaces (dropWhile isspace (rstrip r'))"
      using False x Cons by (simp add: rstrip_Cons)
    also have "dropWhile isspace (rstrip r') = rstrip (dropWhile isspace r)"
      using x Cons by (simp add: lstrip_rstrip)
    finally show ?thesis using IH ne by simp
  qed
qed

lemma sub_spaces_strip: "sub_spaces (strip s) = join_spaces (words_ws s)"
proof (induction s rule: words_ws.induct)
  case 1
  then show ?case by (simp add: strip_def)
next
  case (2 c cs)
  show ?case
  proof (cases "isspace c")
    case True
    with 2 show ?thesis by (simp add: strip_rstrip)
  next
    case False
    let ?w = "c # takeWhile (\<lambda>x. \<not> isspace x) cs" and ?r = "dropWhile (\<lambda>x. \<not> isspace x) cs"
    have w: "\<forall>x\<in>set ?w. \<not> isspace x"
      using False by (auto dest: set_takeWhileD)
    have r: "?r = [] \<or> isspace (hd ?r)"
      using hd_dropWhile [of "\<lambda>x. \<not> isspace x" cs] by auto
    have split: "c # cs = ?w @ ?r" by simp
    have "strip (c # cs) = rstrip (?w @ ?r)"
      using False by (simp add: strip_rstrip)
    also have "\<dots> = ?w @ rstrip ?r"
      using rstrip_nonspace [OF w] by (simp only: rstrip_append append_Nil2 if_split) auto
    finally have "sub_spaces (strip (c # cs)) = ?w @ sub_spaces (rstrip ?r)"
      using sub_spaces_nonspace [OF w] by simp
    also have "sub_spaces (rstrip ?r) =
        (if words_ws ?r = [] then [] else CHR '' '' # join_spaces (words_ws ?r))"
      using 2(2) [OF False] r by (intro sub_spaces_rstrip_gap) (simp_all add: strip_rstrip)
    finally show ?thesis using False by (simp add: join_spaces_Cons)
  qed
qed


lemma takeWhile_holds: "x \<in> set (takeWhile P xs) \<Longrightarrow> P x"
  by (induction xs) (auto split: if_splits)

lemma words_ws_nonspace: "w \<in> set (words_ws s) \<Longrightarrow> w \<noteq> [] \<and> (\<forall>c\<in>set w. \<not> isspace c)"
proof (induction s rule: words_ws.induct)
  case 1
  then show ?case by simp
next
  case (2 c cs)
  show ?case
  proof (cases "isspace c")
    case True
    then have "w \<in> set (words_ws cs)" using "2.prems" by simp
    then show ?thesis by (rule "2.IH"(1) [OF True])
  next
    case False
    then have "w \<in> set ((c # takeWhile (\<lambda>x. \<not> isspace x) cs)
                 # words_ws (dropWhile (\<lambda>x. \<not> isspace x) cs))"
      using "2.prems" by simp
    then consider "w = c # takeWhile (\<lambda>x. \<not> isspace x) cs"
      | "w \<in> set (words_ws (dropWhile (\<lambda>x. \<not> isspace x) cs))"
      by auto
    then show ?thesis
    proof cases
      case 1
      have "\<forall>x\<in>set (takeWhile (\<lambda>x. \<not> isspace x) cs). \<not> isspace x"
        by (rule ballI) (rule takeWhile_holds)
      with 1 False show ?thesis by simp
    next
      case 2
      then show ?thesis by (rule "2.IH"(2) [OF False])
    qed
  qed
qed

lemma strip_trimmed:
  assumes "s = [] \<or> (\<not> isspace (hd s) \<and> \<not> isspace (last s))"
  shows "strip s = s"
proof (cases "s = []")
  case True
  then show ?thesis by (simp add: strip_def)
next
  case False
  with assms have h: "\<not> isspace (hd s)" and l: "\<not> isspace (last s)" by auto
  have "dropWhile isspace s = s"
    using h by (simp add: dropWhile_eq_self_iff)
  moreover have "dropWhile isspace (rev s) = rev s"
    using l by (simp add: dropWhile_eq_self_iff hd_rev)
  ultimately show ?thesis by (simp add: strip_def)
qed

lemma join_spaces_trimmed:
  assumes "\<forall>w\<in>set ws. w \<noteq> [] \<and> (\<forall>c\<in>set w. \<not> isspace c)" and "ws \<noteq> []"
  shows "join_spaces ws \<noteq> [] \<and> \<not> isspace (hd (join_spaces ws))
         \<and> \<not> isspace (last (join_spaces ws))"
  using assms
proof (induction ws rule: join_spaces.induct)
  case 1
  then show ?case by simp
next
  case (2 w)
  then show ?case by (cases w) (auto simp: last_in_set)
next
  case (3 w v ws)
  then have "join_spaces (v # ws) \<noteq> []" and "\<not> isspace (last (join_spaces (v # ws)))"
    by simp_all
  moreover have "w \<noteq> []" and "\<not> isspace (hd w)" using 3(2) by (auto simp: hd_in_set)
  ultimately show ?case by (cases w) simp_all
qed

lemma strip_join_words: "strip (join_spaces (words_ws s)) = join_spaces (words_ws s)"
proof (cases "words_ws s = []")
  case True
  then show ?thesis by (simp add: strip_def)
next
  case False
  have "\<forall>w\<in>set (words_ws s). w \<noteq> [] \<and> (\<forall>c\<in>set w. \<not> isspace c)"
    using words_ws_nonspace by blast
  from join_spaces_trimmed [OF this False] show ?thesis
    by (intro strip_trimmed) simp
qed

lemma match_name_line:
  assumes "b \<noteq> []" and "newline \<notin> set b"
  shows "match_name b = Some b"
proof -
  have tw: "takeWhile (\<lambda>c. c \<noteq> newline) b = b"
    using assms(2) by (induction b) auto
  show ?thesis
    unfolding match_name_def Let_def tw using assms(1) by simp
qed

lemma collapse_name: "strip (sub_spaces (strip s)) = join_spaces (words_ws s)"
  by (simp only: sub_spaces_strip strip_join_words)

lemma search_name_first_comma:
  assumes "CHR '','' \<in> set s" and "after_first_comma s \<noteq> []"
    and "newline \<notin> set (after_first_comma s)"
  shows "search_name s = Some (after_first_comma s)"
  using assms
  by (induction s) (auto simp: after_first_comma_def match_name_line)

lemma search_name_no_comma: "CHR '','' \<notin> set s \<Longrightarrow> search_name s = None"
  by (induction s) auto

lemma ch_name_extinf_channel:
  "ch_name (extinf_channel t src line) =
     strip (sub_spaces (case search_name line of Some v \<Rightarrow> strip v | None \<Rightarrow> ''Unknown Channel''))"
  by (simp add: extinf_channel_def Let_def)

lemma unknown_channel: "strip (sub_spaces ''Unknown Channel'') = ''Unknown Channel''"
  by (simp add: strip_def isspace_def)


section \<open>The store and the URLs seen\<close>

lemma set_all_channels_append:
  "set (all_channels (append_channel st g ch)) = insert (g, ch) (set (all_channels st))"
  by (induction st g ch rule: append_channel.induct) (auto simp: all_channels_def)

lemma mset_all_channels_append:
  "mset (all_channels (append_channel st g ch)) = add_mset (g, ch) (mset (all_channels st))"
  by (induction st g ch rule: append_channel.induct) (auto simp: all_channels_def)

lemma length_all_channels_append:
  "length (all_channels (append_channel st g ch)) = Suc (length (all_channels st))"
  by (induction st g ch rule: append_channel.induct) (auto simp: all_channels_def)


lemma append_channel_not_Nil: "append_channel st g ch \<noteq> []"
  by (cases st) (auto split: if_splits)

lemma mset_store_urls_append:
  "mset (store_urls (append_channel st g ch)) = add_mset (ch_url ch) (mset (store_urls st))"
proof -
  have "mset (store_urls (append_channel st g ch))
          = image_mset (\<lambda>(g, ch). ch_url ch) (mset (all_channels (append_channel st g ch)))"
    by (simp add: store_urls_def)
  also have "\<dots> = add_mset (ch_url ch) (image_mset (\<lambda>(g, ch). ch_url ch) (mset (all_channels st)))"
    by (simp add: mset_all_channels_append)
  finally show ?thesis by (simp add: store_urls_def)
qed

lemma set_store_urls_append:
  "set (store_urls (append_channel st g ch)) = insert (ch_url ch) (set (store_urls st))"
  using mset_store_urls_append [of st g ch, THEN arg_cong, of set_mset] by simp

lemma distinct_store_urls_append:
  "distinct (store_urls (append_channel st g ch))
     \<longleftrightarrow> ch_url ch \<notin> set (store_urls st) \<and> distinct (store_urls st)"
proof -
  have "mset (store_urls (append_channel st g ch)) = mset (ch_url ch # store_urls st)"
    by (simp add: mset_store_urls_append)
  then have "distinct (store_urls (append_channel st g ch)) \<longleftrightarrow> distinct (ch_url ch # store_urls st)"
    by (rule mset_eq_imp_distinct_iff)
  then show ?thesis by simp
qed

lemma admits_unique_urls:
  assumes "admits c c'" and "unique_urls c"
  shows "unique_urls c'"
  using assms
  by (auto simp: admits_def unique_urls_def distinct_store_urls_append set_store_urls_append)

lemma is_url_line_not_Nil: "is_url_line line \<Longrightarrow> line \<noteq> []"
  by (auto simp: is_url_line_def startswith_def)

lemma admits_refl: "admits c c"
  by (simp add: admits_def)

lemma admits_insert:
  assumes "ch_url ch \<noteq> []" and "ch_url ch \<notin> seen_urls c"
  shows "admits c (c\<lparr>seen_urls := insert (ch_url ch) (seen_urls c),
                      channels := append_channel (channels c) g ch\<rparr>)"
  unfolding admits_def using assms by (intro disjI2 exI [of _ g] exI [of _ ch]) simp

lemma admits_m3u_line: "admits c (fst (m3u_line t src (c, cur, n) raw))"
proof (cases "\<not> is_extinf (strip raw) \<and> is_url_line (strip raw) \<and> strip raw \<notin> seen_urls c")
  case True
  show ?thesis
  proof (cases cur)
    case None
    with True show ?thesis by (simp add: admits_refl)
  next
    case (Some p)
    have "admits c (c\<lparr>seen_urls := insert (ch_url (with_url p (strip raw))) (seen_urls c),
                      channels := append_channel (channels c) (ch_group p) (with_url p (strip raw))\<rparr>)"
      by (rule admits_insert) (use True in \<open>simp_all add: with_url_def is_url_line_not_Nil\<close>)
    then show ?thesis using True Some by (simp add: with_url_def Let_def)
  qed
next
  case False
  then show ?thesis by (auto simp: admits_refl Let_def split: option.splits)
qed

lemma admits_parse_item: "admits c (fst (parse_item t src (c, n) item))"
proof (cases item)
  case NotDict
  then show ?thesis by (simp add: admits_refl)
next
  case (Dict d)
  let ?url = "dict_get d ''url'' []"
  show ?thesis
  proof (cases "d ''url'' \<noteq> None \<and> ?url \<noteq> [] \<and> ?url \<notin> seen_urls c")
    case True
    then show ?thesis
      using Dict admits_insert [of "\<lparr>ch_id = generate_channel_id (dict_get d ''name'' ''Unknown Channel'') ?url,
          ch_name = dict_get d ''name'' ''Unknown Channel'',
          ch_logo = dict_get d ''img'' (dict_get d ''logo'' default_logo),
          ch_group = dict_get d ''type'' (dict_get d ''category'' ''General''),
          ch_tvg_id = [], ch_source = src, ch_added_date = t, ch_url = ?url, ch_status = None\<rparr>" c
          "dict_get d ''type'' (dict_get d ''category'' ''General'')"]
      by (simp add: Let_def)
  next
    case False
    then show ?thesis using Dict by (auto simp: admits_refl Let_def)
  qed
qed

lemma unique_urls_m3u_lines:
  "unique_urls (fst st) \<Longrightarrow> unique_urls (fst (m3u_lines t src st ls))"
proof (induction ls arbitrary: st)
  case Nil
  then show ?case by (simp add: m3u_lines_def)
next
  case (Cons l ls)
  obtain c cur n where st: "st = (c, cur, n)" by (cases st)
  have "unique_urls (fst (m3u_line t src st l))"
    using admits_unique_urls [OF admits_m3u_line [of c t src cur n l]] Cons.prems st by simp
  from Cons.IH [OF this] show ?case by (simp add: m3u_lines_def)
qed

lemma unique_urls_parse_m3u_content:
  "unique_urls c \<Longrightarrow> unique_urls (parse_m3u_content t c ls src)"
  using unique_urls_m3u_lines [of "(c, None, 0)" t src ls] by (simp add: parse_m3u_content_def)

lemma unique_urls_parse_items:
  "unique_urls (fst st) \<Longrightarrow> unique_urls (fst (foldl (parse_item t src) st items))"
proof (induction items arbitrary: st)
  case Nil
  then show ?case by simp
next
  case (Cons i items)
  obtain c n where st: "st = (c, n)" by (cases st)
  have "unique_urls (fst (parse_item t src st i))"
    using admits_unique_urls [OF admits_parse_item [of c t src n i]] Cons.prems st by simp
  from Cons.IH [OF this] show ?case by simp
qed

lemma unique_urls_parse_json_content:
  "unique_urls c \<Longrightarrow> unique_urls (snd (parse_json_content loads t c content src))"
  using unique_urls_parse_items [of "(c, 0)"]
  by (auto simp: parse_json_content_def split: json_doc.splits)

lemma unique_urls_clear: "unique_urls (clear c)"
  by (simp add: unique_urls_def clear_def store_urls_def all_channels_def)

lemma unique_urls_process_source:
  "unique_urls (fst st) \<Longrightarrow> unique_urls (fst (snd (process_source e st url)))"
proof -
  assume a: "unique_urls (fst st)"
  obtain c found where st: "st = (c, found)" by (cases st)
  from a st have c: "unique_urls c" by simp
  from c show ?thesis
    by (simp add: st split_beta unique_urls_parse_json_content unique_urls_parse_m3u_content
          split: option.splits parser.splits sum.splits)
qed

lemma unique_urls_sources_loop:
  "unique_urls (fst st) \<Longrightarrow> unique_urls (fst (snd (sources_loop e st urls)))"
proof (induction urls arbitrary: st)
  case Nil
  then show ?case by simp
next
  case (Cons url urls)
  obtain raised st' where p: "process_source e st url = (raised, st')"
    by (cases "process_source e st url")
  from unique_urls_process_source [OF Cons.prems, of e url] p have "unique_urls (fst st')"
    by simp
  from Cons.IH [OF this] show ?case
    using \<open>unique_urls (fst st')\<close> by (cases raised) (simp_all add: p)
qed

lemma unique_urls_process_discovered:
  "unique_urls c \<Longrightarrow> unique_urls (process_discovered e c url)"
  by (auto simp: process_discovered_def unique_urls_parse_m3u_content split: prod.splits)

lemma unique_urls_discovered_loop:
  "unique_urls c \<Longrightarrow> unique_urls (foldl (process_discovered e) c urls)"
  by (induction urls arbitrary: c) (auto simp: unique_urls_process_discovered)

lemma unique_urls_ingest: "unique_urls (snd (ingest e c urls))"
proof -
  obtain raised c1 found where f: "sources_loop e (clear c, {}) urls = (raised, c1, found)"
    by (cases "sources_loop e (clear c, {}) urls")
  have "unique_urls (fst (snd (sources_loop e (clear c, {}) urls)))"
    by (rule unique_urls_sources_loop) (simp add: unique_urls_clear)
  then have "unique_urls c1" using f by simp
  then show ?thesis
    by (cases raised) (simp_all add: ingest_def f unique_urls_discovered_loop)
qed



section \<open>Steps of the playlist parser\<close>

lemma url_line_not_extinf: "is_url_line line \<Longrightarrow> \<not> is_extinf line"
  by (cases line) (auto simp: is_url_line_def is_extinf_def startswith_def)

lemma m3u_line_extinf:
  "is_extinf (strip raw) \<Longrightarrow>
     m3u_line t src (c, cur, n) raw = (c, Some (extinf_channel t src (strip raw)), n)"
  by (simp add: Let_def)

lemma m3u_line_url_no_pending:
  "is_url_line (strip raw) \<Longrightarrow> m3u_line t src (c, None, n) raw = (c, None, n)"
  by (simp add: Let_def url_line_not_extinf)

lemma m3u_line_url_fresh:
  "is_url_line (strip raw) \<Longrightarrow> strip raw \<notin> seen_urls c \<Longrightarrow>
     m3u_line t src (c, Some p, n) raw =
       (c\<lparr>seen_urls := insert (strip raw) (seen_urls c),
          channels := append_channel (channels c) (ch_group p) (with_url p (strip raw))\<rparr>,
        None, Suc n)"
  by (simp add: Let_def url_line_not_extinf)

lemma m3u_line_url_pending_None:
  "is_url_line (strip raw) \<Longrightarrow> fst (snd (m3u_line t src st raw)) = None"
  by (cases st) (auto simp: Let_def url_line_not_extinf split: option.splits)

lemma m3u_line_not_url:
  "\<not> is_url_line (strip raw) \<Longrightarrow>
     \<exists>cur'. m3u_line t src (c, cur, n) raw = (c, cur', n)"
  by (simp add: Let_def)

declare m3u_line.simps [simp del]

lemma m3u_lines_mid:
  "m3u_lines t src st (pre @ xs @ post)
     = m3u_lines t src (m3u_lines t src (m3u_lines t src st pre) xs) post"
  by (simp add: m3u_lines_def)

lemma m3u_lines_Nil: "m3u_lines t src st [] = st"
  by (simp add: m3u_lines_def)

lemma m3u_lines_Cons: "m3u_lines t src st (l # ls) = m3u_lines t src (m3u_line t src st l) ls"
  by (simp add: m3u_lines_def)

lemma m3u_lines_append:
  "m3u_lines t src st (xs @ ys) = m3u_lines t src (m3u_lines t src st xs) ys"
  by (simp add: m3u_lines_def)

lemma m3u_lines_no_url:
  "\<forall>l\<in>set ls. \<not> is_url_line (strip l) \<Longrightarrow> \<exists>cur'. m3u_lines t src (c, cur, n) ls = (c, cur', n)"
proof (induction ls arbitrary: cur)
  case Nil
  then show ?case by (simp add: m3u_lines_Nil)
next
  case (Cons l ls)
  then obtain cur1 where "m3u_line t src (c, cur, n) l = (c, cur1, n)"
    using m3u_line_not_url [of l t src c cur n] by auto
  with Cons show ?case by (simp add: m3u_lines_Cons)
qed

lemma superseded:
  assumes "is_extinf (strip m2)" and "\<forall>l\<in>set mid. \<not> is_url_line (strip l)"
  shows "m3u_lines t src (c, cur, n) (mid @ [m2]) = (c, Some (extinf_channel t src (strip m2)), n)"
proof -
  obtain cur1 where "m3u_lines t src (c, cur, n) mid = (c, cur1, n)"
    using m3u_lines_no_url [OF assms(2)] by blast
  then show ?thesis
    using assms(1) by (simp add: m3u_lines_append m3u_lines_Cons m3u_lines_Nil m3u_line_extinf)
qed

section \<open>Routing\<close>

lemma contains_append: "contains p s \<Longrightarrow> contains p (xs @ s)"
  by (induction xs) simp_all

lemma endswith_split: "endswith s p \<Longrightarrow> s = take (length s - length p) s @ p"
proof -
  assume "endswith s p"
  then have "take (length p) (rev s) = rev p"
    by (simp add: endswith_def startswith_def)
  then have "rev (take (length p) (rev s)) = p" by simp
  then have "drop (length s - length p) s = p"
    by (simp add: rev_take)
  then show ?thesis
    by (metis append_take_drop_id)
qed

lemma lower_dot_html: "lower ''.html'' = ''.html''"
  by (simp add: lower_def lower_char_def)

lemma endswith_html_contains:
  assumes "endswith url ''.html''"
  shows "contains ''html'' (lower url)"
proof -
  from endswith_split [OF assms] obtain pre where "url = pre @ ''.html''" by blast
  then have "lower url = lower pre @ ''.html''"
    using lower_dot_html by (simp add: lower_def)
  moreover have "contains ''html'' ''.html''"
    by (simp add: startswith_def)
  ultimately show ?thesis by (simp only: contains_append)
qed

lemma route_cases:
  "route url content =
     (if contains ''html'' (lower url) then HtmlScraper
      else if endswith url ''.json'' \<or> contains ''json'' (lower (take 100 content))
      then JsonParser
      else PlaylistParser)"
  using endswith_html_contains [of url] by (auto simp: route_def)

section \<open>Identities and logos\<close>

lemma id_extinf_channel: "id_from_source src (extinf_channel t src line)"
  by (simp add: id_from_source_def extinf_channel_def Let_def)

lemma id_with_url: "id_from_source src p \<Longrightarrow> id_from_source src (with_url p line)"
  by (simp add: id_from_source_def with_url_def)

lemma new_channels_append:
  "new_channels c (c'\<lparr>channels := append_channel (channels c') g ch\<rparr>)
     \<subseteq> insert ch (new_channels c c')"
  by (auto simp: new_channels_def set_all_channels_append)

lemma new_channels_seen [simp]:
  "new_channels c (c'\<lparr>seen_urls := S\<rparr>) = new_channels c c'"
  by (simp add: new_channels_def)

lemma new_channels_self: "new_channels c c = {}"
  by (simp add: new_channels_def)

lemma m3u_line_ids:
  assumes "\<forall>ch\<in>new_channels c0 c. id_from_source src ch"
    and "\<forall>p. cur = Some p \<longrightarrow> id_from_source src p"
    and "m3u_line t src (c, cur, n) raw = (c', cur', n')"
  shows "(\<forall>ch\<in>new_channels c0 c'. id_from_source src ch)
         \<and> (\<forall>p. cur' = Some p \<longrightarrow> id_from_source src p)"
proof (cases "is_extinf (strip raw)")
  case True
  with assms(3) have "c' = c" and "cur' = Some (extinf_channel t src (strip raw))"
    by (simp_all add: m3u_line_extinf)
  with assms(1) show ?thesis by (simp add: id_extinf_channel)
next
  case False
  show ?thesis
  proof (cases "is_url_line (strip raw) \<and> cur \<noteq> None \<and> strip raw \<notin> seen_urls c")
    case True
    then obtain p where p: "cur = Some p" by auto
    with True assms(3) have c': "c' = c\<lparr>seen_urls := insert (strip raw) (seen_urls c),
          channels := append_channel (channels c) (ch_group p) (with_url p (strip raw))\<rparr>"
      and cur': "cur' = None"
      by (simp_all add: m3u_line_url_fresh)
    have "new_channels c0 c' \<subseteq> insert (with_url p (strip raw)) (new_channels c0 c)"
      unfolding c' using new_channels_append [of c0 "c\<lparr>seen_urls := insert (strip raw) (seen_urls c)\<rparr>"]
      by simp
    moreover have "id_from_source src (with_url p (strip raw))"
      using assms(2) p by (simp add: id_with_url)
    ultimately show ?thesis using assms(1) cur' by auto
  next
    case nf: False
    with False assms(3) have "c' = c \<and> (cur' = cur \<or> cur' = None)"
      by (auto simp: m3u_line.simps Let_def split: option.splits if_splits)
    with assms(1,2) show ?thesis by auto
  qed
qed

lemma m3u_lines_ids:
  assumes "\<forall>ch\<in>new_channels c0 c. id_from_source src ch"
    and "\<forall>p. cur = Some p \<longrightarrow> id_from_source src p"
  shows "\<forall>ch\<in>new_channels c0 (fst (m3u_lines t src (c, cur, n) ls)). id_from_source src ch"
  using assms
proof (induction ls arbitrary: c cur n)
  case Nil
  then show ?case by (simp add: m3u_lines_Nil)
next
  case (Cons l ls)
  obtain c' cur' n' where st: "m3u_line t src (c, cur, n) l = (c', cur', n')"
    by (cases "m3u_line t src (c, cur, n) l")
  from m3u_line_ids [OF Cons.prems st]
  have "\<forall>ch\<in>new_channels c0 (fst (m3u_lines t src (c', cur', n') ls)). id_from_source src ch"
    by (intro Cons.IH) simp_all
  then show ?case by (simp add: m3u_lines_Cons st)
qed

lemma parse_m3u_ids:
  "\<forall>ch\<in>new_channels c (parse_m3u_content t c ls src). id_from_source src ch"
  unfolding parse_m3u_content_def
  by (rule m3u_lines_ids) (simp_all add: new_channels_self)

lemma parse_item_ids:
  assumes "\<forall>ch\<in>new_channels c0 c. id_from_url ch \<and> ch_source ch = src"
  shows "\<forall>ch\<in>new_channels c0 (fst (parse_item t src (c, n) item)). id_from_url ch \<and> ch_source ch = src"
proof (cases item)
  case NotDict
  with assms show ?thesis by simp
next
  case (Dict d)
  let ?url = "dict_get d ''url'' []"
  show ?thesis
  proof (cases "d ''url'' \<noteq> None \<and> ?url \<noteq> [] \<and> ?url \<notin> seen_urls c")
    case True
    let ?ch = "\<lparr>ch_id = generate_channel_id (dict_get d ''name'' ''Unknown Channel'') ?url,
          ch_name = dict_get d ''name'' ''Unknown Channel'',
          ch_logo = dict_get d ''img'' (dict_get d ''logo'' default_logo),
          ch_group = dict_get d ''type'' (dict_get d ''category'' ''General''),
          ch_tvg_id = [], ch_source = src, ch_added_date = t, ch_url = ?url, ch_status = None\<rparr>"
    have "new_channels c0 (fst (parse_item t src (c, n) item)) \<subseteq> insert ?ch (new_channels c0 c)"
      using True Dict
        new_channels_append [of c0 "c\<lparr>seen_urls := insert ?url (seen_urls c)\<rparr>"
          "dict_get d ''type'' (dict_get d ''category'' ''General'')" ?ch]
      by (simp add: Let_def)
    moreover have "id_from_url ?ch \<and> ch_source ?ch = src"
      by (simp add: id_from_url_def)
    ultimately show ?thesis using assms by blast
  next
    case False
    then have "fst (parse_item t src (c, n) item) = c"
      using Dict by (auto simp: Let_def)
    with assms show ?thesis by simp
  qed
qed

lemma parse_items_ids:
  assumes "\<forall>ch\<in>new_channels c0 c. id_from_url ch \<and> ch_source ch = src"
  shows "\<forall>ch\<in>new_channels c0 (fst (foldl (parse_item t src) (c, n) items)).
           id_from_url ch \<and> ch_source ch = src"
  using assms
proof (induction items arbitrary: c n)
  case Nil
  then show ?case by simp
next
  case (Cons i items)
  obtain c' n' where st: "parse_item t src (c, n) i = (c', n')"
    by (cases "parse_item t src (c, n) i")
  from parse_item_ids [OF Cons.prems, of t n i]
  have "\<forall>ch\<in>new_channels c0 c'. id_from_url ch \<and> ch_source ch = src"
    by (simp add: st)
  from Cons.IH [OF this] show ?case by (simp add: st)
qed

lemma parse_json_ids:
  "\<forall>ch\<in>new_channels c (snd (parse_json_content loads t c content src)).
     id_from_url ch \<and> ch_source ch = src"
proof (cases "loads content")
  case (JList items)
  then show ?thesis
    using parse_items_ids [of c c src t 0 items]
    by (simp add: parse_json_content_def new_channels_self)
qed (simp_all add: parse_json_content_def new_channels_self)

lemma id_A_src: "generate_channel_id ''A'' ''src'' = ''58818069''"
  by code_simp

lemma id_A_1: "generate_channel_id ''A'' ''http://a/1'' = ''42cf403d''"
  by code_simp

lemma id_A_2: "generate_channel_id ''A'' ''http://a/2'' = ''9dca62f6''"
  by code_simp


lemma logo_playlist_default:
  "search_attr ''tvg-logo'' line = None \<or> search_attr ''tvg-logo'' line = Some [] \<Longrightarrow>
     ch_logo (extinf_channel t src line) = default_logo"
  by (auto simp: extinf_channel_def Let_def)

lemma logo_playlist_given:
  "search_attr ''tvg-logo'' line = Some v \<Longrightarrow> v \<noteq> [] \<Longrightarrow>
     ch_logo (extinf_channel t src line) = v"
  by (simp add: extinf_channel_def Let_def)

lemma default_logo_not_empty: "default_logo \<noteq> []"
  by (simp add: default_logo_def)

section \<open>The probe and the validation stage\<close>

lemma check_link_active_uncached:
  assumes "cache url = None"
  shows "(succeeds (net HEAD url) \<longrightarrow>
            check_link_active net cache url
              = (Inr (True, url), cache(url \<mapsto> (True, url)), [Request HEAD url]))
         \<and> (net HEAD url = RequestException \<and> succeeds (net GET url) \<longrightarrow>
            check_link_active net cache url
              = (Inr (True, url), cache(url \<mapsto> (True, url)),
                 [Request HEAD url, Request GET url]))
         \<and> ((\<exists>code. net HEAD url = Status code) \<longrightarrow>
            Request GET url \<notin> set (snd (snd (check_link_active net cache url))))
         \<and> (falls_through net url \<and> alt_url url \<noteq> url \<and> succeeds (net HEAD (alt_url url)) \<longrightarrow>
            check_link_active net cache url
              = (Inr (True, alt_url url), cache(url \<mapsto> (True, alt_url url)),
                 first_requests net url @ [Request HEAD (alt_url url)]))
         \<and> (falls_through net url \<and> alt_url url \<noteq> url \<and> \<not> succeeds (net HEAD (alt_url url))
              \<and> net HEAD (alt_url url) \<noteq> OtherException \<longrightarrow>
            check_link_active net cache url
              = (Inr (False, url), cache(url \<mapsto> (False, url)),
                 first_requests net url @ [Request HEAD (alt_url url)]))
         \<and> (falls_through net url \<and> alt_url url = url \<longrightarrow>
            check_link_active net cache url
              = (Inr (False, url), cache(url \<mapsto> (False, url)), first_requests net url))"
  using assms
  by (auto simp: check_link_active_def check_alt_def succeeds_def falls_through_def
        first_requests_def Let_def split: response.splits if_splits)

lemma check_link_active_cached:
  "cache url = Some r \<Longrightarrow> check_link_active net cache url = (Inr r, cache, [])"
  by (simp add: check_link_active_def)

lemma check_alt_result:
  "check_alt net cache url sent = (r, cache', sent') \<Longrightarrow>
     r = fst (check_alt net Map.empty url sent)
     \<and> (cache' = cache \<or> (\<exists>r'. r = Inr r' \<and> cache' = cache(url \<mapsto> r')))"
  by (auto simp: check_alt_def Let_def split: response.splits if_splits)

lemma check_alt_fst_sent: "fst (check_alt net cache url sent) = fst (check_alt net cache url sent')"
  by (auto simp: check_alt_def Let_def split: response.splits)

lemma check_link_active_miss:
  assumes "cache url = None" and "check_link_active net cache url = (r, cache', sent)"
  shows "r = probe net url \<and> (cache' = cache \<or> (\<exists>r'. r = Inr r' \<and> cache' = cache(url \<mapsto> r')))"
proof -
  have alt: "fst (check_alt net cache url s) = fst (check_alt net Map.empty url s')" for s s'
    using check_alt_result [of net cache url s] check_alt_fst_sent [of net Map.empty url s s']
    by (cases "check_alt net cache url s") auto
  have upd: "snd (check_alt net cache url s) = (c', s') \<Longrightarrow>
      c' = cache \<or> (\<exists>r'. fst (check_alt net cache url s) = Inr r' \<and> c' = cache(url \<mapsto> r'))" for s c' s'
    using check_alt_result [of net cache url s "fst (check_alt net cache url s)" c' s']
    by (cases "check_alt net cache url s") auto
  show ?thesis
  proof (cases "net HEAD url")
    case (Status code)
    show ?thesis
    proof (cases "code < 400")
      case True
      with Status assms show ?thesis
        by (auto simp: check_link_active_def probe_def)
    next
      case False
      with Status assms have eq: "check_alt net cache url [Request HEAD url] = (r, cache', sent)"
        by (simp add: check_link_active_def)
      have "probe net url = fst (check_alt net Map.empty url [Request HEAD url])"
        using Status False by (simp add: check_link_active_def probe_def)
      with eq alt [of "[Request HEAD url]" "[Request HEAD url]"] upd [of "[Request HEAD url]" cache' sent]
      show ?thesis by auto
    qed
  next
    case RequestException
    show ?thesis
    proof (cases "net GET url")
      case (Status code)
      show ?thesis
      proof (cases "code < 400")
        case True
        with Status RequestException assms show ?thesis
          by (auto simp: check_link_active_def probe_def)
      next
        case False
        let ?s = "[Request HEAD url, Request GET url]"
        from False Status RequestException assms
        have eq: "check_alt net cache url ?s = (r, cache', sent)"
          by (simp add: check_link_active_def)
        have "probe net url = fst (check_alt net Map.empty url ?s)"
          using Status False RequestException by (simp add: check_link_active_def probe_def)
        with eq alt [of ?s ?s] upd [of ?s cache' sent]
        show ?thesis by auto
      qed
    next
      case R2: RequestException
      let ?s = "[Request HEAD url, Request GET url]"
      from R2 RequestException assms
      have eq: "check_alt net cache url ?s = (r, cache', sent)"
        by (simp add: check_link_active_def)
      have "probe net url = fst (check_alt net Map.empty url ?s)"
        using R2 RequestException by (simp add: check_link_active_def probe_def)
      with eq alt [of ?s ?s] upd [of ?s cache' sent]
      show ?thesis by auto
    next
      case OtherException
      with RequestException assms show ?thesis
        by (auto simp: check_link_active_def probe_def)
    qed
  next
    case OtherException
    with assms show ?thesis
      by (auto simp: check_link_active_def probe_def)
  qed
qed

lemma check_link_active_consistent:
  assumes "cache_consistent net cache" and "check_link_active net cache url = (r, cache', sent)"
  shows "r = probe net url \<and> cache_consistent net cache'"
proof (cases "cache url")
  case None
  note m = check_link_active_miss [OF None assms(2)]
  from m have r: "r = probe net url"
    by (rule conjunct1)
  from m have c: "cache' = cache \<or> (\<exists>r'. r = Inr r' \<and> cache' = cache(url \<mapsto> r'))"
    by (rule conjunct2)
  from c have "cache_consistent net cache'"
  proof
    assume "cache' = cache"
    with assms(1) show ?thesis by simp
  next
    assume "\<exists>r'. r = Inr r' \<and> cache' = cache(url \<mapsto> r')"
    then obtain r' where "r = Inr r'" and "cache' = cache(url \<mapsto> r')" by blast
    with r assms(1) show ?thesis
      unfolding cache_consistent_def by (metis fun_upd_apply option.inject)
  qed
  with r show ?thesis by simp
next
  case (Some r0)
  with assms(2) have "r = Inr r0" and "cache' = cache"
    by (simp_all add: check_link_active_def)
  moreover from assms(1) Some have "probe net url = Inr r0"
    unfolding cache_consistent_def by blast
  ultimately show ?thesis using assms(1) by simp
qed

lemma run_probes_consistent:
  assumes "cache_consistent net cache"
  shows "fst (run_probes net cache urls) = map (probe net) urls
         \<and> cache_consistent net (snd (run_probes net cache urls))"
  using assms
proof (induction urls arbitrary: cache)
  case Nil
  then show ?case by simp
next
  case (Cons url urls)
  obtain r cache' sent where st: "check_link_active net cache url = (r, cache', sent)"
    by (cases "check_link_active net cache url")
  from check_link_active_consistent [OF Cons.prems st]
  have r: "r = probe net url" and c: "cache_consistent net cache'" by simp_all
  obtain rs cache'' where rest: "run_probes net cache' urls = (rs, cache'')"
    by (cases "run_probes net cache' urls")
  from Cons.IH [OF c] rest have "rs = map (probe net) urls" and "cache_consistent net cache''"
    by simp_all
  with r show ?case
    by (simp add: st rest)
qed


lemma all_channels_Nil: "all_channels [] = []"
  by (simp add: all_channels_def)

lemma cache_consistent_empty: "cache_consistent net Map.empty"
  by (simp add: cache_consistent_def)

lemma mset_concat_map: "mset (concat (map f xs)) = (\<Sum>x\<in>#mset xs. mset (f x))"
  by (induction xs) simp_all

lemma mset_concat_map_cong:
  "mset xs = mset ys \<Longrightarrow> mset (concat (map f xs)) = mset (concat (map f ys))"
  by (simp add: mset_concat_map)

lemma collect_active_mset:
  "mset (all_channels (collect_active st f)) = mset (all_channels st) + mset (activate f)"
  by (induction st f rule: collect_active.induct) (simp_all add: mset_all_channels_append)

lemma foldl_collect_active_mset:
  "mset (all_channels (foldl collect_active st fs))
     = mset (all_channels st) + mset (concat (map activate fs))"
  by (induction fs arbitrary: st) (simp_all add: collect_active_mset)

lemma validate_activate: "validate net x = activate (x, probe net (ch_url (snd x)))"
  by (cases x; cases "probe net (ch_url (snd x))") (auto simp: validate_def)

lemma zip_probes:
  "zip xs (map (probe net) (map (\<lambda>(g, ch). ch_url ch) xs))
     = map (\<lambda>x. (x, probe net (ch_url (snd x)))) xs"
  by (induction xs) auto

lemma activate_zip_probes:
  "concat (map activate (zip xs (map (probe net) (map (\<lambda>(g, ch). ch_url ch) xs))))
     = concat (map (validate net) xs)"
  by (induction xs) (simp_all add: validate_activate split_beta)

lemma validate_active: "(g, ch) \<in> set (validate net x) \<Longrightarrow> ch_status ch = Some ''active''"
  by (cases x) (auto simp: validate_def split: sum.splits if_splits)

lemma filter_active_channels_mset:
  assumes "check_links c" and "cache_consistent net (url_status_cache c)"
    and "\<forall>fs. mset (order fs) = mset fs"
  shows "mset (all_channels (channels (filter_active_channels net order c)))
           = mset (concat (map (validate net) (all_channels (channels c))))"
proof -
  let ?all = "all_channels (channels c)"
  let ?urls = "map (\<lambda>(g, ch). ch_url ch) ?all"
  obtain results cache' where rp: "run_probes net (url_status_cache c) ?urls = (results, cache')"
    by (cases "run_probes net (url_status_cache c) ?urls")
  with run_probes_consistent [OF assms(2), of ?urls]
  have results: "results = map (probe net) ?urls" by simp
  have ch: "channels (filter_active_channels net order c)
              = foldl collect_active [] (order (zip ?all results))"
    using assms(1) by (simp add: filter_active_channels_def rp Let_def)
  have "mset (all_channels (channels (filter_active_channels net order c)))
          = mset (concat (map activate (order (zip ?all results))))"
    unfolding ch by (simp add: foldl_collect_active_mset all_channels_Nil)
  also have "\<dots> = mset (concat (map activate (zip ?all results)))"
    using assms(3) by (intro mset_concat_map_cong) simp
  also have "\<dots> = mset (concat (map (validate net) ?all))"
    unfolding results by (simp only: activate_zip_probes)
  finally show ?thesis .
qed

lemma no_status_append:
  "no_status c \<Longrightarrow> ch_status ch = None \<Longrightarrow>
     no_status (c\<lparr>seen_urls := S, channels := append_channel (channels c) g ch\<rparr>)"
  by (auto simp: no_status_def set_all_channels_append)

lemma no_status_m3u_line: "no_status c \<Longrightarrow> no_status (fst (m3u_line t src (c, cur, n) raw))"
proof (cases "\<not> is_extinf (strip raw) \<and> is_url_line (strip raw) \<and> strip raw \<notin> seen_urls c")
  case True
  assume c: "no_status c"
  show ?thesis
  proof (cases cur)
    case None
    with True c show ?thesis by (simp add: m3u_line_url_no_pending)
  next
    case (Some p)
    with True c show ?thesis
      by (simp add: m3u_line_url_fresh no_status_append with_url_def)
  qed
next
  case False
  assume "no_status c"
  with False show ?thesis
    by (auto simp: m3u_line.simps Let_def split: option.splits)
qed

lemma no_status_m3u_lines:
  "no_status (fst st) \<Longrightarrow> no_status (fst (m3u_lines t src st ls))"
proof (induction ls arbitrary: st)
  case Nil
  then show ?case by (simp add: m3u_lines_Nil)
next
  case (Cons l ls)
  obtain c cur n where st: "st = (c, cur, n)" by (cases st)
  have "no_status (fst (m3u_line t src st l))"
    using no_status_m3u_line [of c t src cur n l] Cons.prems st by simp
  from Cons.IH [OF this] show ?case by (simp add: m3u_lines_Cons)
qed

lemma no_status_parse_m3u_content:
  "no_status c \<Longrightarrow> no_status (parse_m3u_content t c ls src)"
  using no_status_m3u_lines [of "(c, None, 0)" t src ls] by (simp add: parse_m3u_content_def)

lemma no_status_parse_item: "no_status c \<Longrightarrow> no_status (fst (parse_item t src (c, n) item))"
  by (cases item) (auto simp: Let_def no_status_append)

lemma no_status_parse_items:
  "no_status (fst st) \<Longrightarrow> no_status (fst (foldl (parse_item t src) st items))"
proof (induction items arbitrary: st)
  case Nil
  then show ?case by simp
next
  case (Cons i items)
  obtain c n where st: "st = (c, n)" by (cases st)
  have "no_status (fst (parse_item t src st i))"
    using no_status_parse_item [of c t src n i] Cons.prems st by simp
  from Cons.IH [OF this] show ?case by simp
qed

lemma no_status_parse_json_content:
  "no_status c \<Longrightarrow> no_status (snd (parse_json_content loads t c content src))"
  using no_status_parse_items [of "(c, 0)"]
  by (auto simp: parse_json_content_def split: json_doc.splits)

lemma no_status_clear: "no_status (clear c)"
  by (simp add: no_status_def clear_def all_channels_def)

lemma no_status_process_source:
  "no_status (fst st) \<Longrightarrow> no_status (fst (snd (process_source e st url)))"
proof -
  assume a: "no_status (fst st)"
  obtain c found where st: "st = (c, found)" by (cases st)
  from a st have c: "no_status c" by simp
  from c show ?thesis
    by (simp add: st split_beta no_status_parse_json_content no_status_parse_m3u_content
          split: option.splits parser.splits sum.splits)
qed

lemma no_status_sources_loop:
  "no_status (fst st) \<Longrightarrow> no_status (fst (snd (sources_loop e st urls)))"
proof (induction urls arbitrary: st)
  case Nil
  then show ?case by simp
next
  case (Cons url urls)
  obtain raised st' where p: "process_source e st url = (raised, st')"
    by (cases "process_source e st url")
  from no_status_process_source [OF Cons.prems, of e url] p have "no_status (fst st')"
    by simp
  from Cons.IH [OF this] show ?case
    using \<open>no_status (fst st')\<close> by (cases raised) (simp_all add: p)
qed

lemma no_status_process_discovered:
  "no_status c \<Longrightarrow> no_status (process_discovered e c url)"
  by (auto simp: process_discovered_def no_status_parse_m3u_content split: prod.splits)

lemma no_status_discovered_loop:
  "no_status c \<Longrightarrow> no_status (foldl (process_discovered e) c urls)"
  by (induction urls arbitrary: c) (auto simp: no_status_process_discovered)

lemma no_status_ingest: "no_status (snd (ingest e c urls))"
proof -
  obtain raised c1 found where f: "sources_loop e (clear c, {}) urls = (raised, c1, found)"
    by (cases "sources_loop e (clear c, {}) urls")
  have "no_status (fst (snd (sources_loop e (clear c, {}) urls)))"
    by (rule no_status_sources_loop) (simp add: no_status_clear)
  then have "no_status c1" using f by simp
  then show ?thesis
    by (cases raised) (simp_all add: ingest_def f no_status_discovered_loop)
qed

section \<open>The exit status\<close>


lemma uncaught_exception_exit_status: "fst (main e) \<noteq> None \<Longrightarrow> fst (snd (main e)) = 1"
  by (simp add: main_def Let_def split: option.splits prod.splits sum.splits)

section \<open>The claims\<close>

text \<open>
  Claim C1. In every run of the ingestion phase no two channels of the store share a
  URL: a step of either parser that inserts a channel inserts one whose URL is not
  empty and not yet in \<open>seen_urls\<close>, and adds the URL to \<open>seen_urls\<close> in the same
  step; both parsers keep the URLs of the store pairwise different, and so do the two
  loops of \<open>process_sources\<close>, which start from the cleared collector.
\<close>

theorem ingestion_unique_urls:
  "admits c (fst (m3u_line t source_url (c, current_channel, n) raw))
   \<and> admits c (fst (parse_item t source_url (c, n) item))
   \<and> (unique_urls c \<longrightarrow>
        unique_urls (parse_m3u_content t c ls source_url)
        \<and> unique_urls (snd (parse_json_content loads t c content source_url)))
   \<and> unique_urls (snd (ingest e c0 source_urls))"
proof (intro conjI impI)
  show "admits c (fst (m3u_line t source_url (c, current_channel, n) raw))"
    by (rule admits_m3u_line)
  show "admits c (fst (parse_item t source_url (c, n) item))"
    by (rule admits_parse_item)
  show "unique_urls (parse_m3u_content t c ls source_url)" if "unique_urls c"
    using that by (rule unique_urls_parse_m3u_content)
  show "unique_urls (snd (parse_json_content loads t c content source_url))" if "unique_urls c"
    using that by (rule unique_urls_parse_json_content)
  show "unique_urls (snd (ingest e c0 source_urls))"
    by (rule unique_urls_ingest)
qed

theorem ingestion_unique_urls_witness:
  "unique_urls (new_collector True)
   \<and> unique_urls (parse_m3u_content ''now'' (new_collector True)
        [''#EXTINF:-1,One'', ''http://h/1''] ''http://s/a.m3u'')
   \<and> unique_urls (snd (ingest demo_env (new_collector True)
         [''http://s/a.m3u'', ''http://s/b.json'']))
   \<and> store_urls (channels (snd (ingest demo_env (new_collector True)
         [''http://s/a.m3u'', ''http://s/b.json'']))) = [''http://h/1'', ''http://h/2'']"
proof -
  have init: "unique_urls (new_collector True)"
    by (simp add: unique_urls_def new_collector_def store_urls_def all_channels_def)
  have run: "store_urls (channels (snd (ingest demo_env (new_collector True)
         [''http://s/a.m3u'', ''http://s/b.json'']))) = [''http://h/1'', ''http://h/2'']"
    by (simp add: demo_env_def run_defs)
  show ?thesis
    using ingestion_unique_urls [of "new_collector True" "''now''" "''http://s/a.m3u''" None 0
        "[]" NotDict "[''#EXTINF:-1,One'', ''http://h/1'']" "\<lambda>s. NotList" "[]" demo_env
        "new_collector True" "[''http://s/a.m3u'', ''http://s/b.json'']"]
      init run
    by simp
qed

text \<open>
  Claim C4, as amended. A metadata line that is immediately followed by a URL line with
  a fresh URL gives exactly one channel: the store gains one record, with that URL, and
  the count of the parser goes up by one. When the first comma of the metadata line is
  the one that separates the attributes from the title (it is not inside a quoted
  attribute value), the name is the whole text after that comma (not only the text
  after the final comma: a title may hold commas), stripped and with every run of
  whitespace collapsed to one space, when that text is not empty and holds no line
  feed; it is \<open>Unknown Channel\<close> when the line has no comma. Nothing is said here of
  a line with a comma inside a quoted attribute value.
\<close>

theorem metadata_url_pair_one_channel:
  assumes "is_extinf (strip m)" and "is_url_line (strip u)" and "strip u \<notin> seen_urls c"
  shows "m3u_lines t src (c, cur, n) [m, u] =
           (c\<lparr>seen_urls := insert (strip u) (seen_urls c),
              channels := append_channel (channels c)
                (ch_group (extinf_channel t src (strip m)))
                (with_url (extinf_channel t src (strip m)) (strip u))\<rparr>,
            None, n + 1)
         \<and> length (all_channels (channels (fst (m3u_lines t src (c, cur, n) [m, u]))))
             = length (all_channels (channels c)) + 1
         \<and> (CHR '','' \<in> set (strip m) \<and> first_comma_separates (strip m)
              \<and> after_first_comma (strip m) \<noteq> []
              \<and> newline \<notin> set (after_first_comma (strip m)) \<longrightarrow>
            ch_name (extinf_channel t src (strip m))
              = join_spaces (words_ws (after_first_comma (strip m))))
         \<and> (CHR '','' \<notin> set (strip m) \<longrightarrow>
            ch_name (extinf_channel t src (strip m)) = ''Unknown Channel'')"
proof -
  have run: "m3u_lines t src (c, cur, n) [m, u] =
           (c\<lparr>seen_urls := insert (strip u) (seen_urls c),
              channels := append_channel (channels c)
                (ch_group (extinf_channel t src (strip m)))
                (with_url (extinf_channel t src (strip m)) (strip u))\<rparr>,
            None, n + 1)"
    by (simp add: m3u_lines_Cons m3u_lines_Nil m3u_line_extinf [OF assms(1)]
          m3u_line_url_fresh [OF assms(2,3)])
  have one: "length (all_channels (channels (fst (m3u_lines t src (c, cur, n) [m, u]))))
             = length (all_channels (channels c)) + 1"
    unfolding run by (simp add: length_all_channels_append)
  have first: "ch_name (extinf_channel t src (strip m))
              = join_spaces (words_ws (after_first_comma (strip m)))"
    if "CHR '','' \<in> set (strip m)" "after_first_comma (strip m) \<noteq> []"
       "newline \<notin> set (after_first_comma (strip m))"
    unfolding ch_name_extinf_channel search_name_first_comma [OF that]
    by (simp only: option.case collapse_name)
  have none: "ch_name (extinf_channel t src (strip m)) = ''Unknown Channel''"
    if "CHR '','' \<notin> set (strip m)"
    unfolding ch_name_extinf_channel search_name_no_comma [OF that]
    by (simp only: option.case unknown_channel)
  from run one first none show ?thesis by blast
qed


theorem metadata_url_pair_one_channel_witness:
  "is_extinf (strip (''  #EXTINF:-1 group-title='' @ [dquote] @ ''News, Live'' @ [dquote]
                       @ '',Star   News,  HD  ''))
   \<and> is_url_line (strip '' http://h/9 '')
   \<and> strip '' http://h/9 '' \<notin> seen_urls (new_collector True)
   \<and> \<not> first_comma_separates (strip (''  #EXTINF:-1 group-title='' @ [dquote] @ ''News, Live''
                       @ [dquote] @ '',Star   News,  HD  ''))
   \<and> first_comma_separates (strip ''  #EXTINF:-1,Star   News,  HD  '')
   \<and> m3u_lines ''now'' ''src'' (new_collector True, None, 0)
         [''  #EXTINF:-1,Star   News,  HD  '', '' http://h/9 ''] =
       ((new_collector True)\<lparr>seen_urls := insert (strip '' http://h/9 '')
            (seen_urls (new_collector True)),
          channels := append_channel (channels (new_collector True))
            (ch_group (extinf_channel ''now'' ''src'' (strip ''  #EXTINF:-1,Star   News,  HD  '')))
            (with_url (extinf_channel ''now'' ''src'' (strip ''  #EXTINF:-1,Star   News,  HD  ''))
               (strip '' http://h/9 ''))\<rparr>,
        None, 0 + 1)
   \<and> ch_name (extinf_channel ''now'' ''src'' (strip ''  #EXTINF:-1,Star   News,  HD  ''))
       = ''Star News, HD''
   \<and> length (all_channels (channels (fst (m3u_lines ''now'' ''src'' (new_collector True, None, 0)
         [''  #EXTINF:-1 group-title='' @ [dquote] @ ''News, Live'' @ [dquote]
            @ '',Star   News,  HD  '', '' http://h/9 '']))))
       = length (all_channels (channels (new_collector True))) + 1"
proof -
  let ?m = "''  #EXTINF:-1,Star   News,  HD  ''" and ?u = "'' http://h/9 ''"
  let ?q = "''  #EXTINF:-1 group-title='' @ [dquote] @ ''News, Live'' @ [dquote]
              @ '',Star   News,  HD  ''"
  have h1: "is_extinf (strip ?m)"
    by (simp add: run_defs)
  have q1: "is_extinf (strip ?q)"
    by (simp add: run_defs dquote_def)
  have h2: "is_url_line (strip ?u)"
    by (simp add: run_defs)
  have h3: "strip ?u \<notin> seen_urls (new_collector True)"
    by (simp add: new_collector_def)
  have q4: "\<not> first_comma_separates (strip ?q)"
    by (simp add: first_comma_separates_def strip_def isspace_def dquote_def)
  have h4: "first_comma_separates (strip ?m)"
    by (simp add: first_comma_separates_def strip_def isspace_def dquote_def)
  have comma: "CHR '','' \<in> set (strip ?m) \<and> first_comma_separates (strip ?m)
      \<and> after_first_comma (strip ?m) \<noteq> []
      \<and> newline \<notin> set (after_first_comma (strip ?m))"
    using h4 by (simp add: after_first_comma_def strip_def isspace_def newline_def)
  have name: "join_spaces (words_ws (after_first_comma (strip ?m))) = ''Star News, HD''"
    by (simp add: after_first_comma_def strip_def isspace_def)
  note T = metadata_url_pair_one_channel [OF h1 h2 h3, of "''now''" "''src''" None 0]
  note Q = metadata_url_pair_one_channel [OF q1 h2 h3, of "''now''" "''src''" None 0]
  from T have run: "m3u_lines ''now'' ''src'' (new_collector True, None, 0) [?m, ?u] =
       ((new_collector True)\<lparr>seen_urls := insert (strip ?u) (seen_urls (new_collector True)),
          channels := append_channel (channels (new_collector True))
            (ch_group (extinf_channel ''now'' ''src'' (strip ?m)))
            (with_url (extinf_channel ''now'' ''src'' (strip ?m)) (strip ?u))\<rparr>,
        None, 0 + 1)"
    by (rule conjunct1)
  from T comma have "ch_name (extinf_channel ''now'' ''src'' (strip ?m))
      = join_spaces (words_ws (after_first_comma (strip ?m)))"
    by blast
  then have nm: "ch_name (extinf_channel ''now'' ''src'' (strip ?m)) = ''Star News, HD''"
    by (simp only: name)
  from Q have one: "length (all_channels (channels (fst (m3u_lines ''now'' ''src''
         (new_collector True, None, 0) [?q, ?u]))))
       = length (all_channels (channels (new_collector True))) + 1"
    by blast
  from q1 h2 h3 q4 h4 run nm one show ?thesis by (intro conjI)
qed

theorem name_after_final_comma_counterexample:
  "map (\<lambda>(g, ch). ch_name ch) (all_channels (channels
     (parse_m3u_content ''now'' (new_collector True)
        [''#EXTINF:-1,A,B'', ''http://h/1''] ''src''))) = [''A,B'']
   \<and> claimed_name (strip ''#EXTINF:-1,A,B'') = ''B''"
proof
  show "map (\<lambda>(g, ch). ch_name ch) (all_channels (channels
     (parse_m3u_content ''now'' (new_collector True)
        [''#EXTINF:-1,A,B'', ''http://h/1''] ''src''))) = [''A,B'']"
    by (simp add: run_defs name_defs)
  show "claimed_name (strip ''#EXTINF:-1,A,B'') = ''B''"
    by (simp add: claimed_name_def after_final_comma_def run_defs)
qed

text \<open>
  Claim C8. A metadata line that is followed by another metadata line, with no URL line
  in between, gives no channel: after the second metadata line the store, \<open>seen_urls\<close>
  and the count are as they were before the first, the pending channel is the one of the
  second line, and the parser gives the same collector as on the input without the first
  line.
\<close>

theorem metadata_without_url_discarded:
  assumes "is_extinf (strip m1)" and "is_extinf (strip m2)"
    and "\<forall>l\<in>set mid. \<not> is_url_line (strip l)"
  shows "m3u_lines t src (c, cur, n) (m1 # mid @ [m2])
           = (c, Some (extinf_channel t src (strip m2)), n)
         \<and> parse_m3u_content t c0 (pre @ m1 # mid @ m2 # post) src
           = parse_m3u_content t c0 (pre @ mid @ m2 # post) src"
proof
  have m1: "m3u_line t src (c, cur, n) m1 = (c, Some (extinf_channel t src (strip m1)), n)" for c cur n
    using assms(1) by (rule m3u_line_extinf)
  show a: "m3u_lines t src (c, cur, n) (m1 # mid @ [m2])
           = (c, Some (extinf_channel t src (strip m2)), n)" for c cur n
    by (simp only: m3u_lines_Cons m1 superseded [OF assms(2,3)])
  obtain c1 cur1 n1 where st: "m3u_lines t src (c0, None, 0) pre = (c1, cur1, n1)"
    by (cases "m3u_lines t src (c0, None, 0) pre")
  have "m3u_lines t src (c0, None, 0) (pre @ (m1 # mid @ [m2]) @ post)
          = m3u_lines t src (c0, None, 0) (pre @ (mid @ [m2]) @ post)"
    unfolding m3u_lines_mid st a superseded [OF assms(2,3)] ..
  then show "parse_m3u_content t c0 (pre @ m1 # mid @ m2 # post) src
           = parse_m3u_content t c0 (pre @ mid @ m2 # post) src"
    by (simp add: parse_m3u_content_def)
qed


theorem metadata_without_url_discarded_witness:
  "is_extinf (strip ''#EXTINF:-1,One'') \<and> is_extinf (strip ''#EXTINF:-1,Two'')
   \<and> \<not> is_url_line (strip ''#EXTVLCOPT:x'')
   \<and> m3u_lines ''now'' ''src'' (new_collector True, None, 0)
         [''#EXTINF:-1,One'', ''#EXTVLCOPT:x'', ''#EXTINF:-1,Two'']
       = (new_collector True, Some (extinf_channel ''now'' ''src'' (strip ''#EXTINF:-1,Two'')), 0)
   \<and> parse_m3u_content ''now'' (new_collector True)
         [''#EXTINF:-1,One'', ''#EXTVLCOPT:x'', ''#EXTINF:-1,Two'', ''http://h/1''] ''src''
       = parse_m3u_content ''now'' (new_collector True)
         [''#EXTVLCOPT:x'', ''#EXTINF:-1,Two'', ''http://h/1''] ''src''
   \<and> map (\<lambda>(g, ch). ch_name ch) (all_channels (channels
         (parse_m3u_content ''now'' (new_collector True)
            [''#EXTINF:-1,One'', ''#EXTVLCOPT:x'', ''#EXTINF:-1,Two'', ''http://h/1''] ''src'')))
       = [''Two'']"
proof -
  have h1: "is_extinf (strip ''#EXTINF:-1,One'')"
    by (simp add: run_defs)
  have h2: "is_extinf (strip ''#EXTINF:-1,Two'')"
    by (simp add: run_defs)
  have h3: "\<not> is_url_line (strip ''#EXTVLCOPT:x'')"
    by (simp add: run_defs)
  then have h3': "\<forall>l\<in>set [''#EXTVLCOPT:x'']. \<not> is_url_line (strip l)"
    by simp
  have ev: "map (\<lambda>(g, ch). ch_name ch) (all_channels (channels
         (parse_m3u_content ''now'' (new_collector True)
            [''#EXTINF:-1,One'', ''#EXTVLCOPT:x'', ''#EXTINF:-1,Two'', ''http://h/1''] ''src'')))
       = [''Two'']"
    by (simp add: run_defs name_defs)
  show ?thesis
    using metadata_without_url_discarded [OF h1 h2 h3', of "''now''" "''src''"
        "new_collector True" None 0 "new_collector True" "[]" "[''http://h/1'']"]
      h1 h2 h3 ev
    by simp
qed

text \<open>
  Claim C10. A line that begins with a URL scheme and has no pending metadata line gives
  no channel and leaves the store, \<open>seen_urls\<close> and the count as they are: at the
  start of the input, and right after another URL line, which has consumed the pending
  metadata line if there was one.
\<close>

theorem url_without_pending_ignored:
  assumes "is_url_line (strip u)"
  shows "m3u_line t src (c, None, n) u = (c, None, n)
         \<and> parse_m3u_content t c (u # rest) src = parse_m3u_content t c rest src
         \<and> (is_url_line (strip u0) \<longrightarrow>
              m3u_lines t src st (pre @ u0 # u # post) = m3u_lines t src st (pre @ u0 # post))"
proof (intro conjI impI)
  show a: "m3u_line t src (c, None, n) u = (c, None, n)" for c n
    using assms by (rule m3u_line_url_no_pending)
  show "parse_m3u_content t c (u # rest) src = parse_m3u_content t c rest src"
    by (simp add: parse_m3u_content_def m3u_lines_Cons a)
  show "m3u_lines t src st (pre @ u0 # u # post) = m3u_lines t src st (pre @ u0 # post)"
    if "is_url_line (strip u0)"
  proof -
    obtain c1 cur1 n1 where s1: "m3u_line t src (m3u_lines t src st pre) u0 = (c1, cur1, n1)"
      by (cases "m3u_line t src (m3u_lines t src st pre) u0")
    have "cur1 = None"
      using m3u_line_url_pending_None [OF that, of t src "m3u_lines t src st pre"] s1 by simp
    then show ?thesis
      by (simp add: m3u_lines_append m3u_lines_Cons s1 a)
  qed
qed


theorem url_without_pending_ignored_witness:
  "is_url_line (strip ''http://h/2'') \<and> is_url_line (strip ''http://h/1'')
   \<and> m3u_line ''now'' ''src'' (new_collector True, None, 0) ''http://h/2''
       = (new_collector True, None, 0)
   \<and> parse_m3u_content ''now'' (new_collector True)
         [''http://h/2'', ''#EXTINF:-1,One'', ''http://h/1''] ''src''
       = parse_m3u_content ''now'' (new_collector True)
         [''#EXTINF:-1,One'', ''http://h/1''] ''src''
   \<and> m3u_lines ''now'' ''src'' (new_collector True, None, 0)
         ([''#EXTINF:-1,One''] @ ''http://h/1'' # ''http://h/2'' # [])
       = m3u_lines ''now'' ''src'' (new_collector True, None, 0)
         ([''#EXTINF:-1,One''] @ ''http://h/1'' # [])
   \<and> store_urls (channels (parse_m3u_content ''now'' (new_collector True)
         [''#EXTINF:-1,One'', ''http://h/1'', ''http://h/2''] ''src'')) = [''http://h/1'']"
proof -
  have h: "is_url_line (strip ''http://h/2'')"
    by (simp add: run_defs)
  have h0: "is_url_line (strip ''http://h/1'')"
    by (simp add: run_defs)
  have ev: "store_urls (channels (parse_m3u_content ''now'' (new_collector True)
         [''#EXTINF:-1,One'', ''http://h/1'', ''http://h/2''] ''src'')) = [''http://h/1'']"
    by (simp add: run_defs)
  show ?thesis
    using url_without_pending_ignored [OF h, of "''now''" "''src''" "new_collector True" 0
        "[''#EXTINF:-1,One'', ''http://h/1'']" "''http://h/1''"
        "(new_collector True, None, 0)" "[''#EXTINF:-1,One'']" "[]"]
      h h0 ev
    by simp
qed

text \<open>
  Claim C5, as amended. A source of the list that was fetched with content is routed by
  its URL and the start of its content alone: to the HTML scraper when the URL contains
  \<open>html\<close> in any letter case (a URL that ends in \<open>.html\<close> does); otherwise to the
  JSON parser when the URL ends in \<open>.json\<close> or the first 100 characters of the content
  contain \<open>json\<close> in any letter case; otherwise to the playlist parser. A URL that only
  contains \<open>json\<close> is not routed to the JSON parser for that.
\<close>

theorem source_routing:
  assumes "fetch_content e url = (Some content, lines)" and "content \<noteq> []"
  shows "(contains ''html'' (lower url) \<longrightarrow>
            process_source e (c, found) url
              = (case extract_stream_urls_from_html e content url of
                   Inl x \<Rightarrow> (Some x, c, found)
                 | Inr m3u_urls \<Rightarrow> (None, c, found \<union> set m3u_urls)))
         \<and> (\<not> contains ''html'' (lower url)
              \<and> (endswith url ''.json'' \<or> contains ''json'' (lower (take 100 content))) \<longrightarrow>
            process_source e (c, found) url
              = (fst (parse_json_content (json_loads e) (clock e) c content url),
                 snd (parse_json_content (json_loads e) (clock e) c content url), found))
         \<and> (\<not> contains ''html'' (lower url) \<and> \<not> endswith url ''.json''
              \<and> \<not> contains ''json'' (lower (take 100 content)) \<longrightarrow>
            process_source e (c, found) url
              = (None, parse_m3u_content (clock e) c lines url, found))"
  using assms by (simp add: route_cases split_beta)


theorem source_routing_witness:
  "fetch_content demo_env ''http://s/b.json'' = (Some ''[]'', [''[]''])
   \<and> \<not> contains ''html'' (lower ''http://s/b.json'')
   \<and> endswith ''http://s/b.json'' ''.json''
   \<and> process_source demo_env (new_collector True, {}) ''http://s/b.json''
       = (fst (parse_json_content (json_loads demo_env) (clock demo_env) (new_collector True)
            ''[]'' ''http://s/b.json''),
          snd (parse_json_content (json_loads demo_env) (clock demo_env) (new_collector True)
            ''[]'' ''http://s/b.json''), {})"
proof -
  have f: "fetch_content demo_env ''http://s/b.json'' = (Some ''[]'', [''[]''])"
    by (simp add: demo_env_def)
  have ne: "''[]'' \<noteq> ([] :: string)"
    by simp
  have h: "\<not> contains ''html'' (lower ''http://s/b.json'')"
    by (simp add: startswith_def lower_def lower_char_def)
  have j: "endswith ''http://s/b.json'' ''.json''"
    by (simp add: endswith_def startswith_def)
  from source_routing [OF f ne, of "new_collector True" "{}"] h j
  have "process_source demo_env (new_collector True, {}) ''http://s/b.json''
       = (fst (parse_json_content (json_loads demo_env) (clock demo_env) (new_collector True)
            ''[]'' ''http://s/b.json''),
          snd (parse_json_content (json_loads demo_env) (clock demo_env) (new_collector True)
            ''[]'' ''http://s/b.json''), {})"
    by blast
  with f h j show ?thesis by (intro conjI)
qed

theorem json_in_url_counterexample:
  "claimed_route ''http://s/json/list'' ''#EXTM3U'' = JsonParser
   \<and> route ''http://s/json/list'' ''#EXTM3U'' = PlaylistParser
   \<and> process_source demo_env (new_collector True, {}) ''http://s/json/list''
       = (None, parse_m3u_content (clock demo_env) (new_collector True)
            [''#EXTM3U'', ''#EXTINF:-1,Three'', ''http://h/3''] ''http://s/json/list'', {})"
proof (intro conjI)
  show "claimed_route ''http://s/json/list'' ''#EXTM3U'' = JsonParser"
    by (simp add: claimed_route_def endswith_def startswith_def)
  show r: "route ''http://s/json/list'' ''#EXTM3U'' = PlaylistParser"
    by (simp add: route_def endswith_def startswith_def lower_def lower_char_def char_of_def)
  have f: "fetch_content demo_env ''http://s/json/list''
             = (Some ''#EXTM3U'', [''#EXTM3U'', ''#EXTINF:-1,Three'', ''http://h/3''])"
    by (simp add: demo_env_def)
  show "process_source demo_env (new_collector True, {}) ''http://s/json/list''
       = (None, parse_m3u_content (clock demo_env) (new_collector True)
            [''#EXTM3U'', ''#EXTINF:-1,Three'', ''http://h/3''] ''http://s/json/list'', {})"
    by (simp add: f r)
qed

text \<open>
  Claim C6, as amended. The identity of a channel is a function of its name and one URL:
  every channel that the playlist parser adds has the identity derived from its name
  and the URL of the source, and every channel that the JSON parser adds has the
  identity derived from its name and its own stream URL (not the URL of the source).
  No other field takes part.
\<close>

theorem channel_id_derivation:
  "(\<forall>ch\<in>new_channels c (parse_m3u_content t c ls source_url). id_from_source source_url ch)
   \<and> (\<forall>ch\<in>new_channels c (snd (parse_json_content loads t c content source_url)).
         id_from_url ch \<and> ch_source ch = source_url)"
  using parse_m3u_ids [of c t ls source_url] parse_json_ids [of c loads t content source_url]
  by (rule conjI)

theorem channel_id_derivation_witness:
  "map (\<lambda>(g, ch). (g, ch_name ch, ch_source ch, ch_id ch)) (all_channels (channels
     (parse_m3u_content ''now'' (new_collector True)
        [''#EXTINF:-1,A'', ''http://h/1'',
         ''#EXTINF:-1 group-title='' @ [dquote] @ ''G'' @ [dquote] @ '',A'', ''http://h/2'']
        ''src'')))
   = [(''General'', ''A'', ''src'', ''58818069''), (''G'', ''A'', ''src'', ''58818069'')]
   \<and> id_from_source ''src'' \<lparr>ch_id = ''58818069'', ch_name = ''A'', ch_logo = default_logo,
        ch_group = ''G'', ch_tvg_id = [], ch_source = ''src'', ch_added_date = ''now'',
        ch_url = ''http://h/2'', ch_status = None\<rparr>"
proof -
  let ?ls = "[''#EXTINF:-1,A'', ''http://h/1'',
         ''#EXTINF:-1 group-title='' @ [dquote] @ ''G'' @ [dquote] @ '',A'', ''http://h/2'']"
  let ?ch = "\<lparr>ch_id = ''58818069'', ch_name = ''A'', ch_logo = default_logo,
        ch_group = ''G'', ch_tvg_id = [], ch_source = ''src'', ch_added_date = ''now'',
        ch_url = ''http://h/2'', ch_status = None\<rparr>"
  have run: "all_channels (channels (parse_m3u_content ''now'' (new_collector True) ?ls ''src''))
      = [(''General'', ?ch\<lparr>ch_group := ''General'', ch_url := ''http://h/1''\<rparr>), (''G'', ?ch)]"
    by (simp add: run_defs name_defs id_A_src)
  have "?ch \<in> new_channels (new_collector True)
           (parse_m3u_content ''now'' (new_collector True) ?ls ''src'')"
    unfolding new_channels_def run by (simp add: new_collector_def all_channels_def)
  with channel_id_derivation [of "new_collector True" "''now''" ?ls "''src''"]
  have idf: "id_from_source ''src'' ?ch"
    by blast
  have ev: "map (\<lambda>(g, ch). (g, ch_name ch, ch_source ch, ch_id ch)) (all_channels (channels
       (parse_m3u_content ''now'' (new_collector True) ?ls ''src'')))
     = [(''General'', ''A'', ''src'', ''58818069''), (''G'', ''A'', ''src'', ''58818069'')]"
    unfolding run by simp
  from ev idf show ?thesis by (rule conjI)
qed

theorem json_id_from_stream_url_counterexample:
  "map (\<lambda>(g, ch). (ch_name ch, ch_source ch, ch_id ch)) (all_channels (channels
     (snd (parse_json_content
        (\<lambda>s. JList [Dict [''name'' \<mapsto> ''A'', ''url'' \<mapsto> ''http://a/1''],
                     Dict [''name'' \<mapsto> ''A'', ''url'' \<mapsto> ''http://a/2'']])
        ''now'' (new_collector True) ''[]'' ''src''))))
   = [(''A'', ''src'', ''42cf403d''), (''A'', ''src'', ''9dca62f6'')]
   \<and> generate_channel_id ''A'' ''src'' = ''58818069''"
  by (simp add: run_defs id_A_1 id_A_2 id_A_src)

text \<open>
  Claim C7. A channel without a logo attribute, or with an empty one, has the default
  logo. The playlist parser does this (\<open>logo_playlist_default\<close>). The JSON parser does
  it for an absent attribute only: an item whose \<open>img\<close> is the empty string gives a
  channel whose logo is the empty string.
\<close>

theorem json_empty_logo_kept:
  "map (\<lambda>(g, ch). (ch_url ch, ch_logo ch)) (all_channels (channels
     (snd (parse_json_content
        (\<lambda>s. JList [Dict [''url'' \<mapsto> ''http://h/1''],
                     Dict [''url'' \<mapsto> ''http://h/2'', ''img'' \<mapsto> []]])
        ''now'' (new_collector True) ''[]'' ''src''))))
   = [(''http://h/1'', default_logo), (''http://h/2'', [])]
   \<and> default_logo \<noteq> []"
  by (simp add: run_defs default_logo_not_empty)




text \<open>
  Claim C2. The probe tries a header-only request, on any transport error or failure of
  it a streamed full-content request, and on continued failure a header-only request
  of the URL with its scheme flipped; the first success ends the chain. The code sends
  the full-content request only when the header-only request raised a transport error,
  not when it was answered with a status of 400 or more
  (\<open>check_link_active_uncached\<close>): on a host that answers \<open>HEAD\<close> with status 405 and
  \<open>GET\<close> with status 200 the probe sends \<open>HEAD\<close> for the URL and for the flipped
  URL, no \<open>GET\<close>, and returns (inactive, original URL), where the chain of the claim
  returns (active, original URL) after the \<open>GET\<close>.
\<close>

theorem head_status_sends_no_get:
  "head_rejected HEAD ''http://a/x'' = Status 405
   \<and> head_rejected GET ''http://a/x'' = Status 200
   \<and> check_link_active head_rejected Map.empty ''http://a/x''
     = (Inr (False, ''http://a/x''), [''http://a/x'' \<mapsto> (False, ''http://a/x'')],
        [Request HEAD ''http://a/x'', Request HEAD ''https://a/x''])
   \<and> claimed_check_link_active head_rejected ''http://a/x''
     = ((True, ''http://a/x''), [Request HEAD ''http://a/x'', Request GET ''http://a/x''])"
  by (simp add: check_link_active_def check_alt_def alt_url_def replace_def startswith_def
        head_rejected_def claimed_check_link_active_def succeeds_def Let_def)

text \<open>
  Claim C3. With checking enabled (and a cache that holds results of the probe only, as
  the cleared one does), whatever the order in which the probes complete, the store
  after the validation stage holds exactly the channels whose probe succeeded, each with
  the status \<open>active\<close> and its URL rewritten to the resolved one; a channel whose probe
  failed or raised is not in it. With checking disabled the collector is unchanged, and
  the channels that the parsers put into the store carry no status.
\<close>

theorem validation_keeps_active_channels:
  "(check_links c \<and> cache_consistent net (url_status_cache c)
      \<and> (\<forall>fs. mset (order fs) = mset fs) \<longrightarrow>
      mset (all_channels (channels (filter_active_channels net order c)))
        = mset (concat (map (validate net) (all_channels (channels c))))
      \<and> (\<forall>(g, ch)\<in>set (all_channels (channels (filter_active_channels net order c))).
            ch_status ch = Some ''active''))
   \<and> (\<not> check_links c \<longrightarrow> filter_active_channels net order c = c)
   \<and> no_status (snd (ingest e c0 source_urls))"
proof (intro conjI impI)
  assume a: "check_links c \<and> cache_consistent net (url_status_cache c)
      \<and> (\<forall>fs. mset (order fs) = mset fs)"
  then show m: "mset (all_channels (channels (filter_active_channels net order c)))
        = mset (concat (map (validate net) (all_channels (channels c))))"
    by (intro filter_active_channels_mset) simp_all
  have "set (all_channels (channels (filter_active_channels net order c)))
          = set (concat (map (validate net) (all_channels (channels c))))"
    using m by (rule mset_eq_setD)
  then show "\<forall>(g, ch)\<in>set (all_channels (channels (filter_active_channels net order c))).
            ch_status ch = Some ''active''"
    by (auto dest: validate_active)
next
  show "filter_active_channels net order c = c" if "\<not> check_links c"
    using that by (simp add: filter_active_channels_def)
  show "no_status (snd (ingest e c0 source_urls))"
    by (rule no_status_ingest)
qed


theorem validation_keeps_active_channels_witness:
  "check_links (parse_m3u_content ''now'' (new_collector True)
      [''#EXTINF:-1,One'', ''http://a/x'', ''#EXTINF:-1,Two'', ''http://b/y''] ''src'')
   \<and> cache_consistent https_only (url_status_cache (parse_m3u_content ''now'' (new_collector True)
      [''#EXTINF:-1,One'', ''http://a/x'', ''#EXTINF:-1,Two'', ''http://b/y''] ''src''))
   \<and> map (\<lambda>(g, ch). (ch_name ch, ch_url ch, ch_status ch)) (all_channels (channels
        (filter_active_channels https_only rev (parse_m3u_content ''now'' (new_collector True)
          [''#EXTINF:-1,One'', ''http://a/x'', ''#EXTINF:-1,Two'', ''http://b/y''] ''src''))))
       = [(''One'', ''https://a/x'', Some ''active'')]
   \<and> mset (all_channels (channels
        (filter_active_channels https_only rev (parse_m3u_content ''now'' (new_collector True)
          [''#EXTINF:-1,One'', ''http://a/x'', ''#EXTINF:-1,Two'', ''http://b/y''] ''src''))))
       = mset (concat (map (validate https_only) (all_channels (channels
          (parse_m3u_content ''now'' (new_collector True)
            [''#EXTINF:-1,One'', ''http://a/x'', ''#EXTINF:-1,Two'', ''http://b/y''] ''src'')))))
   \<and> filter_active_channels https_only rev (new_collector False) = new_collector False
   \<and> no_status (snd (ingest demo_env (new_collector True) [''http://s/a.m3u'']))"
proof -
  let ?c = "parse_m3u_content ''now'' (new_collector True)
      [''#EXTINF:-1,One'', ''http://a/x'', ''#EXTINF:-1,Two'', ''http://b/y''] ''src''"
  have h1: "check_links ?c"
    by (simp add: run_defs)
  have "url_status_cache ?c = Map.empty"
    by (simp add: run_defs)
  then have h2: "cache_consistent https_only (url_status_cache ?c)"
    by (simp add: cache_consistent_empty)
  have h3: "\<forall>fs :: future list. mset (rev fs) = mset fs"
    by simp
  have h4: "\<not> check_links (new_collector False)"
    by (simp add: new_collector_def)
  have ev: "map (\<lambda>(g, ch). (ch_name ch, ch_url ch, ch_status ch)) (all_channels (channels
        (filter_active_channels https_only rev ?c)))
       = [(''One'', ''https://a/x'', Some ''active'')]"
    by (simp add: run_defs name_defs filter_active_channels_def check_link_active_def
          check_alt_def alt_url_def replace_def https_only_def)
  note T1 = validation_keeps_active_channels [of ?c https_only rev demo_env
      "new_collector True" "[''http://s/a.m3u'']"]
  note T2 = validation_keeps_active_channels [of "new_collector False" https_only rev demo_env
      "new_collector True" "[''http://s/a.m3u'']"]
  from T1 h1 h2 h3 have m: "mset (all_channels (channels (filter_active_channels https_only rev ?c)))
       = mset (concat (map (validate https_only) (all_channels (channels ?c))))"
    by blast
  from T2 h4 have d: "filter_active_channels https_only rev (new_collector False) = new_collector False"
    by blast
  from T1 have n: "no_status (snd (ingest demo_env (new_collector True) [''http://s/a.m3u'']))"
    by blast
  from h1 h2 ev m d n show ?thesis by (intro conjI)
qed

end
